theory Spec2Isabelle
  imports Complex_Main "HOL-Library.Signed_Division" "HOL-Library.Multiset"
begin

section \<open>C integers, buffers and loops\<close>

text \<open>
  The C type \<open>int\<close> is 32 bits wide. An \<open>int\<close> value is modelled as an
  integer and every arithmetic result is wrapped to two's complement by \<open>c_int\<close>
  (signed overflow is undefined in C; the wrap-around is what the usual targets
  compute). \<open>/\<close> and \<open>%\<close> truncate towards zero, so \<open>%\<close> takes the sign of
  its left operand.
\<close>

definition INT_MAX :: int where
  "INT_MAX = 2147483647"

definition c_int :: "int \<Rightarrow> int" where
  "c_int v = (v + 2147483648) mod 4294967296 - 2147483648"

definition c_add :: "int \<Rightarrow> int \<Rightarrow> int" where
  "c_add a b = c_int (a + b)"

definition c_mul :: "int \<Rightarrow> int \<Rightarrow> int" where
  "c_mul a b = c_int (a * b)"

definition c_div :: "int \<Rightarrow> int \<Rightarrow> int" where
  "c_div a b = c_int (a sdiv b)"

definition c_mod :: "int \<Rightarrow> int \<Rightarrow> int" where
  "c_mod a b = a smod b"

text \<open>
  A buffer is a list. Reading or writing outside it is the failure \<open>None\<close>, where
  the C program would touch memory that does not belong to the buffer.
\<close>

definition rd :: "'a list \<Rightarrow> int \<Rightarrow> 'a option" where
  "rd xs i = (if 0 \<le> i \<and> i < int (length xs) then Some (xs ! nat i) else None)"

definition wr :: "'a list \<Rightarrow> int \<Rightarrow> 'a \<Rightarrow> 'a list option" where
  "wr xs i v = (if 0 \<le> i \<and> i < int (length xs) then Some (xs[nat i := v]) else None)"

text \<open>
  \<open>for (int i = 0; i < n; i++) body\<close>: the body runs for \<open>i = 0, ..., n - 1\<close> on
  the state left by the iteration before; a failure ends the loop.
\<close>

primrec for_loop :: "nat \<Rightarrow> (nat \<Rightarrow> 's \<Rightarrow> 's option) \<Rightarrow> 's \<Rightarrow> 's option" where
  "for_loop 0 body s = Some s"
| "for_loop (Suc n) body s =
     (case for_loop n body s of None \<Rightarrow> None | Some t \<Rightarrow> body n t)"

section \<open>NumPy arrays\<close>

text \<open>
  A \<open>PyArrayObject\<close> carries its shape, its element type and its data. The data of a
  four-dimensional array \<open>(n_grids, nx, ny, nz)\<close> is a list of fields, that of a
  five-dimensional array \<open>(n_orientations, n_grids, nx, ny, nz)\<close> a list of lists of
  fields, as \<open>PyArray_GETPTR1\<close> and \<open>PyArray_GETPTR2\<close> address them; a field is the
  flat row-major buffer of \<open>nx * ny * nz\<close> floats that the C code indexes by hand.
  An index outside a field is a failure of the model, also where the C program would
  reach a neighbouring field of the same array. \<open>dims\<close> holds the shape as the
  \<open>int\<close> values the code reads it into. Floats are modelled as real numbers.
\<close>

datatype NPY_TYPES = NPY_INT32 | NPY_INT64 | NPY_FLOAT32 | NPY_FLOAT64

record 'd PyArrayObject =
  dims :: "int list"
  type_num :: NPY_TYPES
  data :: 'd

type_synonym field = "real list"
type_synonym array4 = "field list PyArrayObject"
type_synonym array5 = "field list list PyArrayObject"

definition PyArray_NDIM :: "'d PyArrayObject \<Rightarrow> int" where
  "PyArray_NDIM a = int (length (dims a))"

definition PyArray_DIMS :: "'d PyArrayObject \<Rightarrow> nat \<Rightarrow> int" where
  "PyArray_DIMS a k = dims a ! k"

definition PyArray_TYPE :: "'d PyArrayObject \<Rightarrow> NPY_TYPES" where
  "PyArray_TYPE a = type_num a"

section \<open>Circular realignment\<close>

text \<open>
  \<open>roll_cur_idx\<close>: the flat index of the rolled coordinate,
  \<open>(x + roll_steps) % nx * ny * nz + (y + roll_steps) % ny * nz + (z + roll_steps) % nz\<close>.
  \<open>flip_and_roll\<close> and \<open>sum_grids\<close> write the same expression inline.
\<close>

definition roll_cur_idx :: "int \<Rightarrow> int \<Rightarrow> int \<Rightarrow> int \<Rightarrow> int \<Rightarrow> int \<Rightarrow> int \<Rightarrow> int" where
  "roll_cur_idx nx ny nz x y z roll_steps =
     c_add
       (c_add (c_mul (c_mul (c_mod (c_add x roll_steps) nx) ny) nz)
              (c_mul (c_mod (c_add y roll_steps) ny) nz))
       (c_mod (c_add z roll_steps) nz)"

text \<open>
  The row-major flat index \<open>x * ny * nz + y * nz + z\<close> of the coordinate
  \<open>(x, y, z)\<close>, on natural numbers.
\<close>

definition grid_idx :: "nat \<Rightarrow> nat \<Rightarrow> nat \<Rightarrow> nat \<Rightarrow> nat \<Rightarrow> nat" where
  "grid_idx ny nz x y z = x * ny * nz + y * nz + z"

text \<open>
  \<open>flip_and_roll\<close>, one grid point \<open>k\<close> of channel \<open>j\<close> of one orientation:
  \<open>cur_arr_grids[k] = cur_arr[rolled index]\<close>. \<open>cur_arr\<close> is
  \<open>PyArray_GETPTR1(grids, i)\<close>, the start of the orientation, which is its channel 0;
  \<open>cur_arr_grids\<close> is channel \<open>j\<close> of the same orientation. \<open>chans\<close> holds the
  channels of the orientation; the write is in place.
\<close>

definition flip_and_roll_point ::
  "int \<Rightarrow> int \<Rightarrow> int \<Rightarrow> int \<Rightarrow> nat \<Rightarrow> nat \<Rightarrow> field list \<Rightarrow> field list option" where
  "flip_and_roll_point nx ny nz roll_steps j k chans =
     (let x = c_div (int k) (c_mul ny nz);
          y = c_div (c_mod (int k) (c_mul ny nz)) nz;
          z = c_mod (int k) nz
      in case rd chans 0 of
           None \<Rightarrow> None
         | Some cur_arr \<Rightarrow>
             (case rd cur_arr (roll_cur_idx nx ny nz x y z roll_steps) of
                None \<Rightarrow> None
              | Some v \<Rightarrow>
                  (case rd chans (int j) of
                     None \<Rightarrow> None
                   | Some cur_arr_grids \<Rightarrow>
                       (case wr cur_arr_grids (int k) v of
                          None \<Rightarrow> None
                        | Some g \<Rightarrow> wr chans (int j) g))))"

definition flip_and_roll_orientation ::
  "int \<Rightarrow> int \<Rightarrow> int \<Rightarrow> int \<Rightarrow> int \<Rightarrow> field list \<Rightarrow> field list option" where
  "flip_and_roll_orientation n_grids nx ny nz roll_steps chans =
     for_loop (nat n_grids)
       (\<lambda>j. for_loop (nat (c_mul (c_mul nx ny) nz))
          (\<lambda>k. flip_and_roll_point nx ny nz roll_steps j k))
       chans"

definition flip_and_roll :: "array5 \<Rightarrow> int \<Rightarrow> array5 option" where
  "flip_and_roll grids roll_steps =
     (let n_orientations = PyArray_DIMS grids 0;
          n_grids = PyArray_DIMS grids 1;
          nx = PyArray_DIMS grids 2;
          ny = PyArray_DIMS grids 3;
          nz = PyArray_DIMS grids 4
      in map_option (\<lambda>d. grids\<lparr>data := d\<rparr>)
           (for_loop (nat n_orientations)
              (\<lambda>i d. case rd d (int i) of
                   None \<Rightarrow> None
                 | Some chans \<Rightarrow>
                     (case flip_and_roll_orientation n_grids nx ny nz roll_steps chans of
                        None \<Rightarrow> None
                      | Some chans' \<Rightarrow> wr d (int i) chans'))
              (data grids)))"

text \<open>
  \<open>sum_grids\<close>, the innermost statement:
  \<open>cur_arr_result[updated_idx] += cur_arr_grids[x * ny * nz + y * nz + z]\<close>, where the
  source coordinate runs downwards (\<open>x = nx - 1 - new_x\<close> and likewise for \<open>y\<close>,
  \<open>z\<close>) while the destination coordinate \<open>new_x, new_y, new_z\<close> runs upwards.
\<close>

definition sum_grids_point ::
  "int \<Rightarrow> int \<Rightarrow> int \<Rightarrow> int \<Rightarrow> field \<Rightarrow> nat \<Rightarrow> nat \<Rightarrow> nat \<Rightarrow> field \<Rightarrow> field option" where
  "sum_grids_point nx ny nz roll_steps cur_arr_grids new_x new_y new_z cur_arr_result =
     (let x = nx - 1 - int new_x;
          y = ny - 1 - int new_y;
          z = nz - 1 - int new_z;
          updated_idx = roll_cur_idx nx ny nz (int new_x) (int new_y) (int new_z) roll_steps
      in case rd cur_arr_grids (c_add (c_add (c_mul (c_mul x ny) nz) (c_mul y nz)) z) of
           None \<Rightarrow> None
         | Some v \<Rightarrow>
             (case rd cur_arr_result updated_idx of
                None \<Rightarrow> None
              | Some w \<Rightarrow> wr cur_arr_result updated_idx (w + v)))"

text \<open>The three coordinate loops over one channel of one orientation.\<close>

definition sum_grids_channel ::
  "int \<Rightarrow> int \<Rightarrow> int \<Rightarrow> int \<Rightarrow> field \<Rightarrow> field \<Rightarrow> field option" where
  "sum_grids_channel nx ny nz roll_steps cur_arr_grids cur_arr_result =
     for_loop (nat nx)
       (\<lambda>new_x. for_loop (nat ny)
          (\<lambda>new_y. for_loop (nat nz)
             (\<lambda>new_z. sum_grids_point nx ny nz roll_steps cur_arr_grids new_x new_y new_z)))
       cur_arr_result"

text \<open>The loop over the channels \<open>j\<close> of one orientation.\<close>

definition sum_grids_orientation ::
  "int \<Rightarrow> int \<Rightarrow> int \<Rightarrow> int \<Rightarrow> int \<Rightarrow> field list \<Rightarrow> field \<Rightarrow> field option" where
  "sum_grids_orientation n_grids nx ny nz roll_steps chans cur_arr_result =
     for_loop (nat n_grids)
       (\<lambda>j res. case rd chans (int j) of
            None \<Rightarrow> None
          | Some cur_arr_grids \<Rightarrow> sum_grids_channel nx ny nz roll_steps cur_arr_grids res)
       cur_arr_result"

text \<open>
  \<open>sum_grids\<close>: the loop over the orientations. The iterations touch disjoint buffers,
  so the parallel loop is modelled by the sequential one. The arguments
  \<open>neg_val_ids\<close> and \<open>n_neg_vals\<close> are not used by the code.
\<close>

definition sum_grids :: "array5 \<Rightarrow> array4 \<Rightarrow> int \<Rightarrow> array4 option" where
  "sum_grids grids result roll_steps =
     (let n_orientations = PyArray_DIMS grids 0;
          n_grids = PyArray_DIMS grids 1;
          nx = PyArray_DIMS grids 2;
          ny = PyArray_DIMS grids 3;
          nz = PyArray_DIMS grids 4
      in map_option (\<lambda>d. result\<lparr>data := d\<rparr>)
           (for_loop (nat n_orientations)
              (\<lambda>i d. case rd d (int i) of
                   None \<Rightarrow> None
                 | Some cur_arr_result \<Rightarrow>
                     (case rd (data grids) (int i) of
                        None \<Rightarrow> None
                      | Some chans \<Rightarrow>
                          (case sum_grids_orientation n_grids nx ny nz roll_steps chans
                                  cur_arr_result of
                             None \<Rightarrow> None
                           | Some r \<Rightarrow> wr d (int i) r)))
              (data result)))"

text \<open>
  The two indices of the statement of \<open>sum_grids\<close> for the loop counters
  \<open>(new_x, new_y, new_z)\<close>, on natural numbers: \<open>rolled_idx\<close> is the destination
  \<open>updated_idx\<close> when nothing overflows and \<open>roll_steps\<close> is not negative,
  \<open>flipped_idx\<close> is the source \<open>x * ny * nz + y * nz + z\<close>. \<open>grid_points\<close> lists
  the counters in the order of the loops.
\<close>

definition rolled_idx :: "nat \<Rightarrow> nat \<Rightarrow> nat \<Rightarrow> nat \<Rightarrow> nat \<times> nat \<times> nat \<Rightarrow> nat" where
  "rolled_idx nx ny nz r p =
     (case p of (a, b, c) \<Rightarrow> grid_idx ny nz ((a + r) mod nx) ((b + r) mod ny) ((c + r) mod nz))"

definition flipped_idx :: "nat \<Rightarrow> nat \<Rightarrow> nat \<Rightarrow> nat \<times> nat \<times> nat \<Rightarrow> nat" where
  "flipped_idx nx ny nz p =
     (case p of (a, b, c) \<Rightarrow> grid_idx ny nz (nx - 1 - a) (ny - 1 - b) (nz - 1 - c))"

definition grid_points :: "nat \<Rightarrow> nat \<Rightarrow> nat \<Rightarrow> (nat \<times> nat \<times> nat) list" where
  "grid_points nx ny nz = List.product [0..<nx] (List.product [0..<ny] [0..<nz])"

section \<open>Best-score selector\<close>

text \<open>
  A \<open>ScoreIndexPair\<close> is the C struct. Scores are floats, modelled as real numbers:
  ordered values, so no NaN.
\<close>

record ScoreIndexPair =
  index :: int
  score :: real

text \<open>\<open>comparator\<close> returns \<open>(l < r) - (l > r)\<close>: positive when the left score is lower.\<close>

definition comparator :: "ScoreIndexPair \<Rightarrow> ScoreIndexPair \<Rightarrow> int" where
  "comparator p q =
     (let l = score p; r = score q
      in (if l < r then 1 else 0) - (if l > r then 1 else 0))"

text \<open>
  \<open>qsort\<close> belongs to the C library and is a parameter of the model. What the C
  standard promises of it is \<open>qsort_sorts\<close>: the array is permuted into ascending order
  of the comparison function; the order of elements that compare equal is unspecified.
\<close>

type_synonym qsort_fun =
  "(ScoreIndexPair \<Rightarrow> ScoreIndexPair \<Rightarrow> int) \<Rightarrow> ScoreIndexPair list \<Rightarrow> ScoreIndexPair list"

definition qsort_sorts :: "qsort_fun \<Rightarrow> bool" where
  "qsort_sorts qsort =
     (\<forall>xs. mset (qsort comparator xs) = mset xs \<and>
           sorted_wrt (\<lambda>a b. comparator a b \<le> 0) (qsort comparator xs))"

text \<open>
  One \<open>qsort\<close> that meets the promise: an insertion sort that keeps elements that compare
  equal in the order it found them, as a merge sort does.
\<close>

fun insert_sorted :: "('a \<Rightarrow> 'a \<Rightarrow> int) \<Rightarrow> 'a \<Rightarrow> 'a list \<Rightarrow> 'a list" where
  "insert_sorted cmp x [] = [x]"
| "insert_sorted cmp x (y # ys) =
     (if cmp x y \<le> 0 then x # y # ys else y # insert_sorted cmp x ys)"

definition stable_qsort :: "('a \<Rightarrow> 'a \<Rightarrow> int) \<Rightarrow> 'a list \<Rightarrow> 'a list" where
  "stable_qsort cmp xs = foldr (insert_sorted cmp) xs []"

text \<open>
  The heap is \<open>malloc\<close>ed: \<open>top_n_poses\<close> entries that hold nothing (\<open>None\<close>) until
  they are written. \<open>qsort_heap\<close> is the call
  \<open>qsort(heap, top_n_poses, sizeof(ScoreIndexPair), comparator)\<close>; it reads every entry.
\<close>

definition qsort_heap :: "qsort_fun \<Rightarrow> ScoreIndexPair option list \<Rightarrow> ScoreIndexPair option list option" where
  "qsort_heap qsort heap =
     (if list_all (\<lambda>e. e \<noteq> None) heap
      then Some (map Some (qsort comparator (map the heap)))
      else None)"

text \<open>The body of the loop over the scores, for the index \<open>i\<close>.\<close>

definition get_top_n_scores_step ::
  "qsort_fun \<Rightarrow> real list \<Rightarrow> int \<Rightarrow> nat \<Rightarrow> ScoreIndexPair option list \<Rightarrow>
   ScoreIndexPair option list option" where
  "get_top_n_scores_step qsort scores top_n_poses i heap =
     (case rd scores (int i) of
        None \<Rightarrow> None
      | Some s \<Rightarrow>
          if int i < top_n_poses then
            (case wr heap (int i) (Some \<lparr>index = int i, score = s\<rparr>) of
               None \<Rightarrow> None
             | Some heap' \<Rightarrow>
                 if int i = top_n_poses - 1 then qsort_heap qsort heap' else Some heap')
          else
            (case rd heap 0 of
               None \<Rightarrow> None
             | Some None \<Rightarrow> None
             | Some (Some heap0) \<Rightarrow>
                 if s < score heap0 then
                   (case wr heap 0 (Some \<lparr>index = int i, score = s\<rparr>) of
                      None \<Rightarrow> None
                    | Some heap' \<Rightarrow> qsort_heap qsort heap')
                 else Some heap))"

text \<open>
  \<open>get_top_n_scores\<close>: the result is the content of \<open>top_scores\<close>, a copy of the
  heap. An entry that was never written is \<open>None\<close>.
\<close>

definition get_top_n_scores ::
  "qsort_fun \<Rightarrow> real list \<Rightarrow> int \<Rightarrow> int \<Rightarrow> ScoreIndexPair option list option" where
  "get_top_n_scores qsort scores n top_n_poses =
     for_loop (nat n) (get_top_n_scores_step qsort scores top_n_poses)
       (replicate (nat top_n_poses) None)"

text \<open>
  \<open>lowest K M\<close>: the scores \<open>K\<close> are among the scores \<open>M\<close>, and no score of \<open>M\<close>
  left out of \<open>K\<close> is lower than a score of \<open>K\<close>.
\<close>

definition lowest :: "real multiset \<Rightarrow> real multiset \<Rightarrow> bool" where
  "lowest K M = (\<exists>R. M = K + R \<and> (\<forall>a\<in>#K. \<forall>b\<in>#R. a \<le> b))"

text \<open>
  What holds of the heap \<open>ps\<close> after the first \<open>i\<close> scores, once it is full: it is
  sorted with the highest score first; its entries carry distinct indices below \<open>i\<close>
  and the scores at these indices; its scores are the \<open>N\<close> lowest so far; and an entry
  that came after the first \<open>N\<close> was preceded by fewer than \<open>N\<close> scores that were not
  higher than its own.
\<close>

definition heap_inv :: "real list \<Rightarrow> nat \<Rightarrow> nat \<Rightarrow> ScoreIndexPair list \<Rightarrow> bool" where
  "heap_inv scores N i ps =
     (length ps = N \<and>
      sorted_wrt (\<lambda>a b. score b \<le> score a) ps \<and>
      distinct (map index ps) \<and>
      (\<forall>p\<in>set ps. 0 \<le> index p \<and> index p < int i \<and> score p = scores ! nat (index p)) \<and>
      lowest (mset (map score ps)) (mset (take i scores)) \<and>
      (\<forall>p\<in>set ps. int N \<le> index p \<longrightarrow>
         length (filter (\<lambda>x. x \<le> score p) (take (nat (index p)) scores)) < N))"

section \<open>Batched FFT correlation\<close>

text \<open>
  The FFT backend (FFTW) is outside the repository and is a parameter of the model:
  \<open>dft_r2c\<close> is what \<open>fftwf_execute_dft_r2c\<close> computes with the forward plan,
  \<open>dft_c2r\<close> what \<open>fftwf_execute_dft_c2r\<close> computes with the inverse plan. Both
  plans are created with \<open>FFTW_MEASURE\<close> on live buffers, and FFTW overwrites the
  arrays of a plan while it measures: \<open>measure_r2c\<close> is what planning leaves in the
  real input array of the forward plan, \<open>measure_c2r\<close> what it leaves in the real
  output array of the inverse plan. Complex floats are modelled as complex numbers.
\<close>

record fftw =
  dft_r2c :: "field \<Rightarrow> complex list"
  dft_c2r :: "complex list \<Rightarrow> field"
  measure_r2c :: "field \<Rightarrow> field"
  measure_c2r :: "field \<Rightarrow> field"


text \<open>
  A plan of shape \<open>(nx, ny, nz)\<close> touches \<open>nx * ny * nz\<close> floats of its real array,
  when it is created and when it is executed: a buffer of another size is a failure.
\<close>

definition fftwf_plan_measure :: "(field \<Rightarrow> field) \<Rightarrow> int \<Rightarrow> field \<Rightarrow> field option" where
  "fftwf_plan_measure leaves N_grid_points buf =
     (if int (length buf) = N_grid_points then Some (leaves buf) else None)"

definition fftwf_execute_dft_r2c :: "fftw \<Rightarrow> int \<Rightarrow> field \<Rightarrow> complex list option" where
  "fftwf_execute_dft_r2c B N_grid_points buf =
     (if int (length buf) = N_grid_points then Some (dft_r2c B buf) else None)"

text \<open>
  The element-wise loop
  \<open>for (k = 0; k < N_fft_points; k++) cur_fft_l[k] = conjf(fft_r[k]) * cur_fft_l[k] * scale\<close>.
\<close>

definition conj_multiply ::
  "int \<Rightarrow> real \<Rightarrow> complex list \<Rightarrow> complex list \<Rightarrow> complex list option" where
  "conj_multiply N_fft_points scale fft_r cur_fft_l =
     for_loop (nat N_fft_points)
       (\<lambda>k cur. case rd fft_r (int k) of
            None \<Rightarrow> None
          | Some r \<Rightarrow>
              (case rd cur (int k) of
                 None \<Rightarrow> None
               | Some l \<Rightarrow> wr cur (int k) (cnj r * l * complex_of_real scale)))
       cur_fft_l"

text \<open>
  The body of the loop over the orientations \<open>j\<close>, for the channel \<open>i\<close>: forward
  transform of the candidate field, conjugate multiplication, inverse transform back
  into the candidate buffer \<open>PyArray_GETPTR2(result, j, i)\<close>. \<open>fft_l\<close> holds one
  slice of \<open>N_fft_points\<close> coefficients for each orientation, and \<open>cur_fft_l\<close> is
  \<open>fft_l + j * N_fft_points\<close>, a product of two \<open>int\<close>s. When the product wraps,
  the pointer is not the slice of the orientation, and the model fails.
\<close>

definition correlate_orientation ::
  "fftw \<Rightarrow> int \<Rightarrow> int \<Rightarrow> real \<Rightarrow> complex list \<Rightarrow> nat \<Rightarrow> nat \<Rightarrow>
   field list list \<Rightarrow> field list list option" where
  "correlate_orientation B N_grid_points N_fft_points scale fft_r i j d =
     (case rd d (int j) of
        None \<Rightarrow> None
      | Some chans \<Rightarrow>
          (case rd chans (int i) of
             None \<Rightarrow> None
           | Some cur_lig \<Rightarrow>
               if c_mul (int j) N_fft_points = int j * N_fft_points then
                 (case fftwf_execute_dft_r2c B N_grid_points cur_lig of
                    None \<Rightarrow> None
                  | Some cur_fft_l \<Rightarrow>
                      (case conj_multiply N_fft_points scale fft_r cur_fft_l of
                         None \<Rightarrow> None
                       | Some cur_prod \<Rightarrow>
                           (case wr chans (int i) (dft_c2r B cur_prod) of
                              None \<Rightarrow> None
                            | Some chans' \<Rightarrow> wr d (int j) chans')))
               else None))"

text \<open>
  The creation of the two plans: the forward plan on \<open>recep_arr\<close>, the first field
  of the receptor, and the inverse plan on \<open>lig_arr\<close>, the first field of the result.
  The complex arrays of the plans are scratch buffers that the loops write before
  they read them.
\<close>

definition create_plans ::
  "fftw \<Rightarrow> int \<Rightarrow> field list \<Rightarrow> field list list \<Rightarrow> (field list \<times> field list list) option" where
  "create_plans B N_grid_points recep cand =
     (case rd recep 0 of
        None \<Rightarrow> None
      | Some recep_arr \<Rightarrow>
          (case fftwf_plan_measure (measure_r2c B) N_grid_points recep_arr of
             None \<Rightarrow> None
           | Some recep_arr' \<Rightarrow>
               (case rd cand 0 of
                  None \<Rightarrow> None
                | Some chans \<Rightarrow>
                    (case rd chans 0 of
                       None \<Rightarrow> None
                     | Some lig_arr \<Rightarrow>
                         (case fftwf_plan_measure (measure_c2r B) N_grid_points lig_arr of
                            None \<Rightarrow> None
                          | Some lig_arr' \<Rightarrow>
                              Some (recep[0 := recep_arr'], cand[0 := chans[0 := lig_arr']]))))))"

text \<open>
  \<open>fft_correlate_batch\<close>: the plans, then the loop over the channels \<open>i\<close> of the
  receptor, each with the loop over the orientations. That loop is
  \<open>#pragma omp parallel for num_threads(n_threads)\<close>: its iterations touch disjoint
  buffers and only read \<open>fft_r\<close>, so it is modelled by the sequential loop; OpenMP
  requires a positive \<open>n_threads\<close>, and the model fails on any other value.
  \<open>scale\<close> is \<open>1.0 / N_grid_points\<close>, which is infinite for an empty grid: no real
  number, and the model fails. The model returns both arrays as the call leaves them.
\<close>

definition fft_correlate_batch ::
  "fftw \<Rightarrow> array4 \<Rightarrow> array5 \<Rightarrow> int \<Rightarrow> (array4 \<times> array5) option" where
  "fft_correlate_batch B recep_grid result n_threads =
     (let n_grids = PyArray_DIMS recep_grid 0;
          n_orientations = PyArray_DIMS result 0;
          nx = PyArray_DIMS recep_grid 1;
          ny = PyArray_DIMS recep_grid 2;
          nz = PyArray_DIMS recep_grid 3;
          N_grid_points = c_mul (c_mul nx ny) nz;
          N_fft_points = c_mul (c_mul nx ny) (c_add (c_div nz 2) 1)
      in case create_plans B N_grid_points (data recep_grid) (data result) of
           None \<Rightarrow> None
         | Some (recep, cand) \<Rightarrow>
             if N_grid_points = 0 then None
             else
               (let scale = 1 / real_of_int N_grid_points
                in map_option (\<lambda>d. (recep_grid\<lparr>data := recep\<rparr>, result\<lparr>data := d\<rparr>))
                     (for_loop (nat n_grids)
                        (\<lambda>i d. case rd recep (int i) of
                             None \<Rightarrow> None
                           | Some cur_recep \<Rightarrow>
                               (case fftwf_execute_dft_r2c B N_grid_points cur_recep of
                                  None \<Rightarrow> None
                                | Some fft_r \<Rightarrow>
                                    if n_threads < 1 then None
                                    else
                                      for_loop (nat n_orientations)
                                        (correlate_orientation B N_grid_points N_fft_points
                                           scale fft_r i)
                                        d))
                        cand)))"

text \<open>
  The Python wrapper: it raises \<open>TypeError\<close> with a message, or calls
  \<open>fft_correlate_batch\<close> and returns \<open>None\<close> to Python. The model returns the
  error, or what the call did to the two arrays.
\<close>

datatype PyErr = TypeError string

definition py_fft_correlate_batch ::
  "fftw \<Rightarrow> array4 \<Rightarrow> array5 \<Rightarrow> int \<Rightarrow> PyErr + (array4 \<times> array5) option" where
  "py_fft_correlate_batch B recep_grid result n_threads =
     (if PyArray_NDIM recep_grid \<noteq> 4 \<or> PyArray_TYPE recep_grid \<noteq> NPY_FLOAT32 then
        Inl (TypeError ''Expected receptor arrays of float32 with 4 dimensions.'')
      else if PyArray_NDIM result \<noteq> 5 \<or> PyArray_TYPE result \<noteq> NPY_FLOAT32 then
        Inl (TypeError ''Expected result arrays of float32 with 5 dimensions.'')
      else
        (let n_grids = PyArray_DIMS recep_grid 0;
             n_grids_result = PyArray_DIMS result 1
         in if n_grids \<noteq> n_grids_result then
              Inl (TypeError
                ''Expected same number of grids for both receptor and result arrays.'')
            else Inr (fft_correlate_batch B recep_grid result n_threads)))"

text \<open>
  The reference the spec compares the engine with: the direct spatial cross-correlation of
  a target field with a candidate field, computed by brute force. Its entry at the
  translation \<open>(tx, ty, tz)\<close> is the sum over all grid points \<open>(x, y, z)\<close> of the target
  at \<open>(x, y, z)\<close> times the candidate at the point shifted cyclically by the translation.
\<close>

definition brute_force_cross_correlation :: "nat \<Rightarrow> nat \<Rightarrow> nat \<Rightarrow> field \<Rightarrow> field \<Rightarrow> field" where
  "brute_force_cross_correlation nx ny nz target cand =
     map (\<lambda>(tx, ty, tz).
            \<Sum>(x, y, z)\<leftarrow>grid_points nx ny nz.
              target ! grid_idx ny nz x y z *
              cand ! grid_idx ny nz ((x + tx) mod nx) ((y + ty) mod ny) ((z + tz) mod nz))
         (grid_points nx ny nz)"

text \<open>
  The transforms of a \<open>1 * 1 * 2\<close> grid: the two-point DFT \<open>[a + b, a - b]\<close> and its
  inverse without normalisation, as FFTW computes them. \<open>dft2\<close> is a backend whose
  planning leaves the buffers as they are (as when FFTW has wisdom for the size);
  \<open>dft2_fresh\<close> is one whose planning leaves zeros in the arrays it measured on.
\<close>

definition dft2 :: fftw where
  "dft2 = \<lparr>dft_r2c = (\<lambda>f. [complex_of_real (f ! 0 + f ! 1), complex_of_real (f ! 0 - f ! 1)]),
            dft_c2r = (\<lambda>s. [Re (s ! 0 + s ! 1), Re (s ! 0 - s ! 1)]),
            measure_r2c = (\<lambda>f. f), measure_c2r = (\<lambda>f. f)\<rparr>"

definition dft2_fresh :: fftw where
  "dft2_fresh = dft2\<lparr>measure_r2c := map (\<lambda>_. 0), measure_c2r := map (\<lambda>_. 0)\<rparr>"

section \<open>Facts about the C integers and the loops\<close>

lemma c_int_id: "- 2147483648 \<le> v \<Longrightarrow> v \<le> 2147483647 \<Longrightarrow> c_int v = v"
  by (simp add: c_int_def)

lemma smod_nonneg: "0 \<le> a \<Longrightarrow> 0 < b \<Longrightarrow> (a::int) smod b = a mod b"
  by (cases "a = 0") (simp_all add: signed_modulo_int_def)

lemma grid_idx_less:
  assumes "x < nx" "y < ny" "z < nz"
  shows "grid_idx ny nz x y z < nx * ny * nz"
proof -
  have a: "(y + 1) * nz \<le> ny * nz"
    by (rule mult_le_mono1) (use assms in simp)
  have b: "(x + 1) * (ny * nz) \<le> nx * (ny * nz)"
    by (rule mult_le_mono1) (use assms in simp)
  have "x * ny * nz + y * nz + z < x * ny * nz + y * nz + nz" using assms by simp
  also have "\<dots> = x * ny * nz + (y + 1) * nz" by (simp add: algebra_simps)
  also have "\<dots> \<le> x * ny * nz + ny * nz" using a by simp
  also have "\<dots> = (x + 1) * (ny * nz)" by (simp add: algebra_simps)
  also have "\<dots> \<le> nx * (ny * nz)" by (rule b)
  finally show ?thesis by (simp add: grid_idx_def mult.assoc)
qed

lemma grid_idx_inj:
  assumes "y < ny" "z < nz" "y' < ny" "z' < nz"
    and "grid_idx ny nz x y z = grid_idx ny nz x' y' z'"
  shows "x = x' \<and> y = y' \<and> z = z'"
proof -
  have e: "(x * ny + y) * nz + z = (x' * ny + y') * nz + z'"
    using assms(5) by (simp add: grid_idx_def algebra_simps)
  have "((x * ny + y) * nz + z) mod nz = z" "((x' * ny + y') * nz + z') mod nz = z'"
    using assms by simp_all
  with e have z: "z = z'" by metis
  have "((x * ny + y) * nz + z) div nz = x * ny + y" "((x' * ny + y') * nz + z') div nz = x' * ny + y'"
    using assms by simp_all
  with e have e2: "x * ny + y = x' * ny + y'" by metis
  have "(x * ny + y) mod ny = y" "(x' * ny + y') mod ny = y'"
    using assms by simp_all
  with e2 have y: "y = y'" by metis
  have "(x * ny + y) div ny = x" "(x' * ny + y') div ny = x'"
    using assms by simp_all
  with e2 have "x = x'" by metis
  with y z show ?thesis by simp
qed

lemma mod_small_cases:
  assumes "(m::nat) < 2 * n"
  shows "m mod n = (if m < n then m else m - n)"
proof (cases "m < n")
  case True
  then show ?thesis by simp
next
  case False
  then have "m mod n = (m - n) mod n" by (simp add: le_mod_geq)
  also have "\<dots> = m - n" using assms False by simp
  finally show ?thesis using False by simp
qed

lemma mod_shift_inj_small:
  assumes "(a::nat) < n" "b < n" "s < n" "(a + s) mod n = (b + s) mod n"
  shows "a = b"
proof -
  have "a + s < 2 * n" "b + s < 2 * n" using assms by linarith+
  then have "(a + s) mod n = (if a + s < n then a + s else a + s - n)"
    "(b + s) mod n = (if b + s < n then b + s else b + s - n)"
    by (simp_all only: mod_small_cases)
  with assms(4) have "(if a + s < n then a + s else a + s - n) =
     (if b + s < n then b + s else b + s - n)" by simp
  then show ?thesis using assms(1,2,3) by (simp split: if_splits)
qed

lemma mod_shift_inj:
  assumes "(a::nat) < n" "b < n" "(a + r) mod n = (b + r) mod n"
  shows "a = b"
proof -
  have "(a + r) mod n = (a + r mod n) mod n" "(b + r) mod n = (b + r mod n) mod n"
    by (simp_all add: mod_add_right_eq)
  with assms(3) have e: "(a + r mod n) mod n = (b + r mod n) mod n" by simp
  have "0 < n" using assms by simp
  then have "r mod n < n" by simp
  then show ?thesis using mod_shift_inj_small [OF assms(1,2) _ e] by simp
qed

lemma c_add_nat: "int a + int b \<le> 2147483647 \<Longrightarrow> c_add (int a) (int b) = int (a + b)"
  by (simp add: c_add_def c_int_id)

lemma c_mul_nat: "int (a * b) \<le> 2147483647 \<Longrightarrow> c_mul (int a) (int b) = int (a * b)"
proof -
  assume "int (a * b) \<le> 2147483647"
  moreover have "0 \<le> int (a * b)" by simp
  ultimately have "c_int (int (a * b)) = int (a * b)" by (intro c_int_id) linarith+
  then show ?thesis by (simp add: c_mul_def)
qed

lemma c_mod_nat: "0 < b \<Longrightarrow> c_mod (int a) (int b) = int (a mod b)"
  by (simp add: c_mod_def smod_nonneg zmod_int)


lemma grid_idx_parts:
  assumes "0 < nz"
  shows "x * ny \<le> grid_idx ny nz x y z" "x * ny * nz \<le> grid_idx ny nz x y z"
    "y * nz \<le> grid_idx ny nz x y z" "x * ny * nz + y * nz \<le> grid_idx ny nz x y z"
proof -
  have "x * ny * 1 \<le> x * ny * nz" by (rule mult_le_mono2) (use assms in simp)
  then have "x * ny \<le> x * ny * nz" by simp
  then show "x * ny \<le> grid_idx ny nz x y z" unfolding grid_idx_def by linarith
qed (simp_all add: grid_idx_def)

lemma c_grid_idx:
  assumes "x < nx" "y < ny" "z < nz" "int (nx * ny * nz) \<le> 2147483647"
  shows "c_add (c_add (c_mul (c_mul (int x) (int ny)) (int nz)) (c_mul (int y) (int nz))) (int z)
         = int (grid_idx ny nz x y z)"
proof -
  have nz: "0 < nz" using assms by simp
  have lt: "int (grid_idx ny nz x y z) \<le> 2147483647"
    using grid_idx_less [OF assms(1-3)] assms(4) by linarith
  have p: "x * ny \<le> grid_idx ny nz x y z" "x * ny * nz \<le> grid_idx ny nz x y z"
    "y * nz \<le> grid_idx ny nz x y z" "x * ny * nz + y * nz \<le> grid_idx ny nz x y z"
    by (rule grid_idx_parts [OF nz])+
  have 1: "c_mul (int x) (int ny) = int (x * ny)"
    by (rule c_mul_nat) (use p(1) lt in linarith)
  have 2: "c_mul (int (x * ny)) (int nz) = int (x * ny * nz)"
    by (rule c_mul_nat) (use p(2) lt in linarith)
  have 3: "c_mul (int y) (int nz) = int (y * nz)"
    by (rule c_mul_nat) (use p(3) lt in linarith)
  have 4: "c_add (int (x * ny * nz)) (int (y * nz)) = int (x * ny * nz + y * nz)"
    by (rule c_add_nat) (use p(4) lt in linarith)
  have 5: "c_add (int (x * ny * nz + y * nz)) (int z) = int (x * ny * nz + y * nz + z)"
    by (rule c_add_nat) (use lt in \<open>simp add: grid_idx_def\<close>)
  show ?thesis by (simp only: 1 2 3 4 5 grid_idx_def)
qed

lemma roll_cur_idx_nat:
  assumes "x < nx" "y < ny" "z < nz" "int (nx * ny * nz) \<le> 2147483647"
    and "0 \<le> r" "r + int nx \<le> 2147483648" "r + int ny \<le> 2147483648" "r + int nz \<le> 2147483648"
  shows "roll_cur_idx (int nx) (int ny) (int nz) (int x) (int y) (int z) r =
         int (grid_idx ny nz ((x + nat r) mod nx) ((y + nat r) mod ny) ((z + nat r) mod nz))"
proof -
  have pos: "0 < nx" "0 < ny" "0 < nz" using assms by simp_all
  have r: "r = int (nat r)" using assms(5) by simp
  have ax: "c_add (int x) r = int (x + nat r)"
    using assms by (simp add: c_add_def c_int_id)
  have ay: "c_add (int y) r = int (y + nat r)"
    using assms by (simp add: c_add_def c_int_id)
  have az: "c_add (int z) r = int (z + nat r)"
    using assms by (simp add: c_add_def c_int_id)
  have m: "(x + nat r) mod nx < nx" "(y + nat r) mod ny < ny" "(z + nat r) mod nz < nz"
    using pos by simp_all
  show ?thesis
    unfolding roll_cur_idx_def ax ay az c_mod_nat [OF pos(1)] c_mod_nat [OF pos(2)] c_mod_nat [OF pos(3)]
    by (rule c_grid_idx [OF m assms(4)])
qed

lemma for_loop_fold:
  assumes "I s"
    and "\<And>k t. k < n \<Longrightarrow> I t \<Longrightarrow> body k t = Some (f k t) \<and> I (f k t)"
  shows "for_loop n body s = Some (fold f [0..<n] s) \<and> I (fold f [0..<n] s)"
  using assms(2)
proof (induction n)
  case 0
  show ?case using assms(1) by simp
next
  case (Suc n)
  have ih: "for_loop n body s = Some (fold f [0..<n] s) \<and> I (fold f [0..<n] s)"
    by (rule Suc.IH) (simp add: Suc.prems)
  have "body n (fold f [0..<n] s) = Some (f n (fold f [0..<n] s)) \<and> I (f n (fold f [0..<n] s))"
    by (rule Suc.prems) (simp_all add: ih)
  then show ?case using ih by simp
qed

lemma fold_product:
  "fold f (List.product xs ys) = fold (\<lambda>x. fold (\<lambda>y. f (x, y)) ys) xs"
  by (induction xs) (simp_all add: fold_map comp_def)

lemma sum_grids_point_eq:
  assumes "a < nx" "b < ny" "c < nz" "int (nx * ny * nz) \<le> 2147483647"
    and "0 \<le> r" "r + int nx \<le> 2147483648" "r + int ny \<le> 2147483648" "r + int nz \<le> 2147483648"
    and "length src = nx * ny * nz" "length res = nx * ny * nz"
  shows "sum_grids_point (int nx) (int ny) (int nz) r src a b c res =
     Some (res[grid_idx ny nz ((a + nat r) mod nx) ((b + nat r) mod ny) ((c + nat r) mod nz) :=
        res ! grid_idx ny nz ((a + nat r) mod nx) ((b + nat r) mod ny) ((c + nat r) mod nz)
        + src ! grid_idx ny nz (nx - 1 - a) (ny - 1 - b) (nz - 1 - c)])"
proof -
  have pos: "0 < nx" "0 < ny" "0 < nz" using assms by simp_all
  have m: "(a + nat r) mod nx < nx" "(b + nat r) mod ny < ny" "(c + nat r) mod nz < nz"
    using pos by simp_all
  have f: "nx - 1 - a < nx" "ny - 1 - b < ny" "nz - 1 - c < nz" using assms by simp_all
  have i: "int nx - 1 - int a = int (nx - 1 - a)" "int ny - 1 - int b = int (ny - 1 - b)"
    "int nz - 1 - int c = int (nz - 1 - c)" using assms by simp_all
  have d: "grid_idx ny nz ((a + nat r) mod nx) ((b + nat r) mod ny) ((c + nat r) mod nz) < length res"
    using grid_idx_less [OF m] assms by simp
  have s: "grid_idx ny nz (nx - 1 - a) (ny - 1 - b) (nz - 1 - c) < length src"
    using grid_idx_less [OF f] assms by simp
  show ?thesis
    unfolding sum_grids_point_def Let_def i roll_cur_idx_nat [OF assms(1-8)] c_grid_idx [OF f assms(4)]
    using d s by (simp add: rd_def wr_def)
qed

lemma set_grid_points: "set (grid_points nx ny nz) = {(a, b, c). a < nx \<and> b < ny \<and> c < nz}"
  by (auto simp: grid_points_def)

lemma distinct_grid_points: "distinct (grid_points nx ny nz)"
  by (simp add: grid_points_def distinct_product)

lemma rolled_idx_less:
  assumes "p \<in> set (grid_points nx ny nz)"
  shows "rolled_idx nx ny nz r p < nx * ny * nz"
proof -
  obtain a b c where p: "p = (a, b, c)" by (cases p) auto
  with assms have "a < nx" "b < ny" "c < nz" by (simp_all add: set_grid_points)
  then have "(a + r) mod nx < nx" "(b + r) mod ny < ny" "(c + r) mod nz < nz" by simp_all
  then show ?thesis unfolding p rolled_idx_def by (simp add: grid_idx_less)
qed

lemma rolled_idx_inj: "inj_on (rolled_idx nx ny nz r) (set (grid_points nx ny nz))"
proof (rule inj_onI)
  fix p q
  assume pq: "p \<in> set (grid_points nx ny nz)" "q \<in> set (grid_points nx ny nz)"
    and e: "rolled_idx nx ny nz r p = rolled_idx nx ny nz r q"
  obtain a b c where p: "p = (a, b, c)" by (cases p) auto
  obtain a' b' c' where q: "q = (a', b', c')" by (cases q) auto
  have lt: "a < nx" "b < ny" "c < nz" "a' < nx" "b' < ny" "c' < nz"
    using pq by (simp_all add: p q set_grid_points)
  then have m: "(b + r) mod ny < ny" "(c + r) mod nz < nz" "(b' + r) mod ny < ny" "(c' + r) mod nz < nz"
    by simp_all
  have "(a + r) mod nx = (a' + r) mod nx \<and> (b + r) mod ny = (b' + r) mod ny
      \<and> (c + r) mod nz = (c' + r) mod nz"
    by (rule grid_idx_inj [OF m]) (use e in \<open>simp add: p q rolled_idx_def\<close>)
  then have "a = a'" "b = b'" "c = c'"
    using lt by (auto intro: mod_shift_inj)
  then show "p = q" by (simp add: p q)
qed


lemma fold_scatter:
  assumes "distinct (map d ps)" "\<forall>p\<in>set ps. d p < length res"
  shows "length (fold (\<lambda>p t. t[d p := t ! d p + src ! s p]) ps res) = length res \<and>
         (\<forall>p\<in>set ps. fold (\<lambda>p t. t[d p := t ! d p + src ! s p]) ps res ! d p
             = res ! d p + src ! s p) \<and>
         (\<forall>i. i \<notin> d ` set ps \<longrightarrow> fold (\<lambda>p t. t[d p := t ! d p + src ! s p]) ps res ! i = res ! i)"
  using assms
proof (induction ps arbitrary: res)
  case Nil
  then show ?case by simp
next
  case (Cons q qs)
  let ?F = "fold (\<lambda>p t. t[d p := t ! d p + src ! s p])"
  let ?res = "res[d q := res ! d q + src ! s q]"
  have dq: "d q \<notin> d ` set qs" "distinct (map d qs)" using Cons.prems(1) by auto
  have len: "\<forall>p\<in>set qs. d p < length ?res" using Cons.prems(2) by simp
  have qlen: "d q < length res" using Cons.prems(2) by simp
  note ih = Cons.IH [OF dq(2) len]
  have 1: "length (?F (q # qs) res) = length res" using ih by simp
  have 2: "?F (q # qs) res ! d p = res ! d p + src ! s p" if "p \<in> set (q # qs)" for p
  proof (cases "p \<in> set qs")
    case True
    then have "d p \<in> d ` set qs" by (rule imageI)
    then have "d p \<noteq> d q" using dq(1) by metis
    then show ?thesis using ih True by simp
  next
    case False
    then have "p = q" using that by simp
    then show ?thesis using ih dq(1) qlen by simp
  qed
  have 3: "?F (q # qs) res ! i = res ! i" if "i \<notin> d ` set (q # qs)" for i
    using that ih by simp
  show ?case using 1 2 3 by blast
qed

lemma sum_grids_channel_fold:
  assumes "int (nx * ny * nz) \<le> 2147483647"
    and "0 \<le> r" "r + int nx \<le> 2147483648" "r + int ny \<le> 2147483648" "r + int nz \<le> 2147483648"
    and "length src = nx * ny * nz" "length res = nx * ny * nz"
  shows "sum_grids_channel (int nx) (int ny) (int nz) r src res =
     Some (fold (\<lambda>p t. t[rolled_idx nx ny nz (nat r) p :=
                  t ! rolled_idx nx ny nz (nat r) p + src ! flipped_idx nx ny nz p])
             (grid_points nx ny nz) res)"
proof -
  let ?I = "\<lambda>t::real list. length t = nx * ny * nz"
  let ?u = "\<lambda>p t. t[rolled_idx nx ny nz (nat r) p :=
                  t ! rolled_idx nx ny nz (nat r) p + src ! flipped_idx nx ny nz p]"
  have pt: "sum_grids_point (int nx) (int ny) (int nz) r src a b c t = Some (?u (a, b, c) t) \<and> ?I (?u (a, b, c) t)"
    if "a < nx" "b < ny" "c < nz" "?I t" for a b c t
    using sum_grids_point_eq [OF that(1-3) assms(1-6) that(4)] that(4)
    by (simp add: rolled_idx_def flipped_idx_def)
  have lz: "for_loop nz (\<lambda>c. sum_grids_point (int nx) (int ny) (int nz) r src a b c) t
        = Some (fold (\<lambda>c. ?u (a, b, c)) [0..<nz] t) \<and> ?I (fold (\<lambda>c. ?u (a, b, c)) [0..<nz] t)"
    if "a < nx" "b < ny" "?I t" for a b t
    by (rule for_loop_fold [where I = ?I]) (use that pt in auto)
  have ly: "for_loop ny (\<lambda>b. for_loop nz (\<lambda>c. sum_grids_point (int nx) (int ny) (int nz) r src a b c)) t
        = Some (fold (\<lambda>b. fold (\<lambda>c. ?u (a, b, c)) [0..<nz]) [0..<ny] t)
        \<and> ?I (fold (\<lambda>b. fold (\<lambda>c. ?u (a, b, c)) [0..<nz]) [0..<ny] t)"
    if "a < nx" "?I t" for a t
    by (rule for_loop_fold [where I = ?I]) (use that lz in auto)
  have lx: "for_loop nx (\<lambda>a. for_loop ny (\<lambda>b. for_loop nz (\<lambda>c. sum_grids_point (int nx) (int ny) (int nz) r src a b c))) res
        = Some (fold (\<lambda>a. fold (\<lambda>b. fold (\<lambda>c. ?u (a, b, c)) [0..<nz]) [0..<ny]) [0..<nx] res)
        \<and> ?I (fold (\<lambda>a. fold (\<lambda>b. fold (\<lambda>c. ?u (a, b, c)) [0..<nz]) [0..<ny]) [0..<nx] res)"
    by (rule for_loop_fold [where I = ?I]) (use assms ly in auto)
  show ?thesis
    using lx by (simp add: sum_grids_channel_def grid_points_def fold_product)
qed

lemma sum_grids_channel_nth:
  assumes "int (nx * ny * nz) \<le> 2147483647"
    and "0 \<le> r" "r + int nx \<le> 2147483648" "r + int ny \<le> 2147483648" "r + int nz \<le> 2147483648"
    and "length src = nx * ny * nz" "length res = nx * ny * nz"
  shows "\<exists>out. sum_grids_channel (int nx) (int ny) (int nz) r src res = Some out \<and>
           length out = nx * ny * nz \<and>
           (\<forall>p\<in>set (grid_points nx ny nz).
              out ! rolled_idx nx ny nz (nat r) p =
              res ! rolled_idx nx ny nz (nat r) p + src ! flipped_idx nx ny nz p)"
proof -
  have d: "distinct (map (rolled_idx nx ny nz (nat r)) (grid_points nx ny nz))"
    by (simp add: distinct_map distinct_grid_points rolled_idx_inj)
  have l: "\<forall>p\<in>set (grid_points nx ny nz). rolled_idx nx ny nz (nat r) p < length res"
    using assms(7) by (simp add: rolled_idx_less)
  show ?thesis
    unfolding sum_grids_channel_fold [OF assms]
    using fold_scatter [OF d l, of src "flipped_idx nx ny nz"] assms(7) by simp
qed

lemma sum_grids_orientation_nth:
  assumes "int (nx * ny * nz) \<le> 2147483647"
    and "0 \<le> r" "r + int nx \<le> 2147483648" "r + int ny \<le> 2147483648" "r + int nz \<le> 2147483648"
    and "length res = nx * ny * nz"
    and "n_grids \<le> length chans" "\<forall>j<n_grids. length (chans ! j) = nx * ny * nz"
  shows "\<exists>out. sum_grids_orientation (int n_grids) (int nx) (int ny) (int nz) r chans res = Some out \<and>
           length out = nx * ny * nz \<and>
           (\<forall>p\<in>set (grid_points nx ny nz).
              out ! rolled_idx nx ny nz (nat r) p =
              res ! rolled_idx nx ny nz (nat r) p + (\<Sum>j<n_grids. chans ! j ! flipped_idx nx ny nz p))"
  using assms(7,8)
proof (induction n_grids)
  case 0
  show ?case using assms(6) by (simp add: sum_grids_orientation_def)
next
  case (Suc n)
  from Suc obtain mid where mid: "sum_grids_orientation (int n) (int nx) (int ny) (int nz) r chans res = Some mid"
    "length mid = nx * ny * nz"
    "\<forall>p\<in>set (grid_points nx ny nz).
              mid ! rolled_idx nx ny nz (nat r) p =
              res ! rolled_idx nx ny nz (nat r) p + (\<Sum>j<n. chans ! j ! flipped_idx nx ny nz p)"
    by auto
  have len: "length (chans ! n) = nx * ny * nz" using Suc.prems by simp
  from sum_grids_channel_nth [OF assms(1-5) len mid(2)]
  obtain out where out: "sum_grids_channel (int nx) (int ny) (int nz) r (chans ! n) mid = Some out"
    "length out = nx * ny * nz"
    "\<forall>p\<in>set (grid_points nx ny nz).
              out ! rolled_idx nx ny nz (nat r) p =
              mid ! rolled_idx nx ny nz (nat r) p + chans ! n ! flipped_idx nx ny nz p"
    by auto
  have "sum_grids_orientation (int (Suc n)) (int nx) (int ny) (int nz) r chans res = Some out"
    using mid(1) out(1) Suc.prems(1)
    by (simp add: sum_grids_orientation_def rd_def nat_add_distrib del: of_nat_Suc)
  moreover have "\<forall>p\<in>set (grid_points nx ny nz).
              out ! rolled_idx nx ny nz (nat r) p =
              res ! rolled_idx nx ny nz (nat r) p + (\<Sum>j<Suc n. chans ! j ! flipped_idx nx ny nz p)"
    using out(3) mid(3) by simp
  ultimately show ?case using out(2) by simp
qed

lemma for_loop_pointwise:
  assumes "n \<le> length d"
    and "\<And>i t. i < n \<Longrightarrow> length t = length d \<Longrightarrow> t ! i = d ! i \<Longrightarrow> body i t = Some (t[i := h i])"
  shows "for_loop n body d = Some (map h [0..<n] @ drop n d)"
  using assms
proof (induction n)
  case 0
  show ?case by simp
next
  case (Suc n)
  let ?t = "map h [0..<n] @ drop n d"
  have ih: "for_loop n body d = Some ?t"
    by (rule Suc.IH) (use Suc.prems in simp_all)
  have n: "n < length d" using Suc.prems(1) by simp
  have dr: "drop n d = d ! n # drop (Suc n) d"
    using n by (simp add: Cons_nth_drop_Suc)
  have "body n ?t = Some (?t[n := h n])"
    by (rule Suc.prems(2)) (use n in \<open>simp_all add: nth_append\<close>)
  moreover have "?t[n := h n] = map h [0..<Suc n] @ drop (Suc n) d"
    by (simp add: list_update_append dr)
  ultimately show ?case using ih by simp
qed

lemma sum_grids_main:
  assumes dg: "dims grids = [int n_o, int n_g, int nx, int ny, int nz]"
    and N: "int (nx * ny * nz) \<le> 2147483647"
    and r: "0 \<le> r" "r + int nx \<le> 2147483648" "r + int ny \<le> 2147483648" "r + int nz \<le> 2147483648"
    and lg: "length (data grids) = n_o" "\<forall>i<n_o. length (data grids ! i) = n_g"
      "\<forall>i<n_o. \<forall>j<n_g. length (data grids ! i ! j) = nx * ny * nz"
    and lr: "length (data result) = n_o" "\<forall>i<n_o. length (data result ! i) = nx * ny * nz"
  shows "\<exists>out. sum_grids grids result r = Some out \<and> dims out = dims result \<and>
           type_num out = type_num result \<and>
           length (data out) = n_o \<and>
           (\<forall>i<n_o. length (data out ! i) = nx * ny * nz \<and>
              (\<forall>p\<in>set (grid_points nx ny nz).
                data out ! i ! rolled_idx nx ny nz (nat r) p =
                data result ! i ! rolled_idx nx ny nz (nat r) p
                  + (\<Sum>j<n_g. data grids ! i ! j ! flipped_idx nx ny nz p)))"
proof -
  define h where "h i = the (sum_grids_orientation (int n_g) (int nx) (int ny) (int nz) r
     (data grids ! i) (data result ! i))" for i
  have ho: "sum_grids_orientation (int n_g) (int nx) (int ny) (int nz) r
     (data grids ! i) (data result ! i) = Some (h i) \<and> length (h i) = nx * ny * nz \<and>
     (\<forall>p\<in>set (grid_points nx ny nz).
              h i ! rolled_idx nx ny nz (nat r) p =
              data result ! i ! rolled_idx nx ny nz (nat r) p
                + (\<Sum>j<n_g. data grids ! i ! j ! flipped_idx nx ny nz p))" if "i < n_o" for i
  proof -
    have 1: "length (data result ! i) = nx * ny * nz" using lr that by simp
    have 2: "n_g \<le> length (data grids ! i)" using lg that by simp
    have 3: "\<forall>j<n_g. length (data grids ! i ! j) = nx * ny * nz" using lg that by simp
    from sum_grids_orientation_nth [OF N r 1 2 3] show ?thesis by (auto simp: h_def)
  qed
  have loop: "for_loop n_o
       (\<lambda>i d. case rd d (int i) of None \<Rightarrow> None
          | Some cur_arr_result \<Rightarrow>
              (case rd (data grids) (int i) of None \<Rightarrow> None
               | Some chans \<Rightarrow>
                   (case sum_grids_orientation (int n_g) (int nx) (int ny) (int nz) r chans cur_arr_result of
                      None \<Rightarrow> None | Some r \<Rightarrow> wr d (int i) r)))
       (data result) = Some (map h [0..<n_o] @ drop n_o (data result))"
    by (rule for_loop_pointwise) (use lr lg ho in \<open>simp_all add: rd_def wr_def\<close>)
  have "sum_grids grids result r = Some (result\<lparr>data := map h [0..<n_o]\<rparr>)"
    using loop lr(1) by (simp add: sum_grids_def PyArray_DIMS_def dg)
  then show ?thesis using ho by simp
qed

lemma roll_cur_idx_rolled:
  assumes "a < nx" "b < ny" "c < nz" "int (nx * ny * nz) \<le> 2147483647"
    and "0 \<le> r" "r + int nx \<le> 2147483648" "r + int ny \<le> 2147483648" "r + int nz \<le> 2147483648"
  shows "nat (roll_cur_idx (int nx) (int ny) (int nz) (int a) (int b) (int c) r)
           = rolled_idx nx ny nz (nat r) (a, b, c)"
  by (simp add: roll_cur_idx_nat [OF assms] rolled_idx_def)

lemmas c_arith_defs = c_add_def c_mul_def c_div_def c_mod_def c_int_def
  signed_modulo_int_def signed_divide_int_def

lemma sdiv_nonneg: "0 \<le> a \<Longrightarrow> 0 < b \<Longrightarrow> (a::int) sdiv b = a div b"
  by (cases "a = 0") (simp_all add: signed_divide_int_def)

lemma c_div_nat:
  assumes "0 < b" "int a \<le> 2147483647"
  shows "c_div (int a) (int b) = int (a div b)"
proof -
  have "int (a div b) \<le> int a" by simp
  then have "c_int (int (a div b)) = int (a div b)"
    using assms(2) by (intro c_int_id) linarith+
  then show ?thesis using assms(1) by (simp add: c_div_def sdiv_nonneg zdiv_int)
qed

lemma flip_and_roll_point_eq:
  assumes "k < nx * ny * nz" "int (nx * ny * nz) \<le> 2147483647"
    and "0 \<le> r" "r + int nx \<le> 2147483648" "r + int ny \<le> 2147483648" "r + int nz \<le> 2147483648"
    and "j < length chans" "\<forall>j<length chans. length (chans ! j) = nx * ny * nz"
  shows "flip_and_roll_point (int nx) (int ny) (int nz) r j k chans =
     Some (chans[j := (chans ! j)[k := chans ! 0 !
        rolled_idx nx ny nz (nat r) (k div (ny * nz), k mod (ny * nz) div nz, k mod nz)]])"
proof -
  have pos: "0 < nx" "0 < ny" "0 < nz"
    using assms(1) by (cases "nx = 0"; cases "ny = 0"; cases "nz = 0"; simp)+
  have nyz: "int (ny * nz) \<le> 2147483647"
  proof -
    have "ny * nz \<le> nx * ny * nz" using pos by simp
    then have "int (ny * nz) \<le> int (nx * ny * nz)" by (simp only: of_nat_le_iff)
    then show ?thesis using assms(2) by linarith
  qed
  have kk: "int k \<le> 2147483647" using assms(1,2) by linarith
  have km: "int (k mod (ny * nz)) \<le> 2147483647"
    using kk mod_less_eq_dividend [of k "ny * nz"] by linarith
  have x: "c_div (int k) (c_mul (int ny) (int nz)) = int (k div (ny * nz))"
    unfolding c_mul_nat [OF nyz] by (rule c_div_nat) (use pos kk in simp_all)
  have y: "c_div (c_mod (int k) (c_mul (int ny) (int nz))) (int nz) = int (k mod (ny * nz) div nz)"
  proof -
    have "0 < ny * nz" using pos by simp
    then have "c_mod (int k) (int (ny * nz)) = int (k mod (ny * nz))" by (rule c_mod_nat)
    then show ?thesis
      unfolding c_mul_nat [OF nyz] using c_div_nat [OF pos(3) km] by simp
  qed
  have z: "c_mod (int k) (int nz) = int (k mod nz)"
    using pos by (simp add: c_mod_nat)
  have lx: "k div (ny * nz) < nx"
    using assms(1) by (simp add: less_mult_imp_div_less mult.assoc)
  have ly: "k mod (ny * nz) div nz < ny"
    by (rule less_mult_imp_div_less) (use pos in simp)
  have lz: "k mod nz < nz" using pos by simp
  have p: "(k div (ny * nz), k mod (ny * nz) div nz, k mod nz) \<in> set (grid_points nx ny nz)"
    using lx ly lz by (simp add: set_grid_points)
  have c0: "0 < length chans" using assms(7) by (cases chans) simp_all
  have l0: "length (chans ! 0) = nx * ny * nz" using assms(8) c0 by simp
  have lj: "length (chans ! j) = nx * ny * nz" using assms(7,8) by simp
  have idx: "roll_cur_idx (int nx) (int ny) (int nz) (int (k div (ny * nz)))
       (int (k mod (ny * nz) div nz)) (int (k mod nz)) r
     = int (rolled_idx nx ny nz (nat r) (k div (ny * nz), k mod (ny * nz) div nz, k mod nz))"
    by (simp add: roll_cur_idx_nat [OF lx ly lz assms(2-6)] rolled_idx_def)
  show ?thesis
    unfolding flip_and_roll_point_def Let_def x y z idx
    using rolled_idx_less [OF p, of "nat r"] c0 l0 lj assms(1,7)
    by (simp add: rd_def wr_def del: of_nat_mult)
qed

lemma flip_and_roll_orientation_Some:
  assumes "int (nx * ny * nz) \<le> 2147483647"
    and "0 \<le> r" "r + int nx \<le> 2147483648" "r + int ny \<le> 2147483648" "r + int nz \<le> 2147483648"
    and "length chans = n_g" "\<forall>j<n_g. length (chans ! j) = nx * ny * nz"
  shows "\<exists>out. flip_and_roll_orientation (int n_g) (int nx) (int ny) (int nz) r chans = Some out \<and>
           length out = n_g \<and> (\<forall>j<n_g. length (out ! j) = nx * ny * nz)"
proof -
  let ?I = "\<lambda>t::real list list. length t = n_g \<and> (\<forall>j<n_g. length (t ! j) = nx * ny * nz)"
  let ?u = "\<lambda>j k t. t[j := (t ! j)[k := t ! 0 !
        rolled_idx nx ny nz (nat r) (k div (ny * nz), k mod (ny * nz) div nz, k mod nz)]]"
  have pt: "flip_and_roll_point (int nx) (int ny) (int nz) r j k t = Some (?u j k t) \<and> ?I (?u j k t)"
    if "j < n_g" "k < nx * ny * nz" "?I t" for j k t
  proof -
    have 1: "j < length t" "\<forall>j<length t. length (t ! j) = nx * ny * nz" using that by simp_all
    have "?I (?u j k t)" using that(1,3) by (auto simp: nth_list_update)
    then show ?thesis using flip_and_roll_point_eq [OF that(2) assms(1-5) 1] by simp
  qed
  have lk: "for_loop (nx * ny * nz) (\<lambda>k. flip_and_roll_point (int nx) (int ny) (int nz) r j k) t
      = Some (fold (?u j) [0..<nx * ny * nz] t) \<and> ?I (fold (?u j) [0..<nx * ny * nz] t)"
    if "j < n_g" "?I t" for j t
    by (rule for_loop_fold [where I = ?I]) (use that pt in auto)
  have nn: "nat (c_mul (c_mul (int nx) (int ny)) (int nz)) = nx * ny * nz"
  proof (cases "nz = 0")
    case True
    then show ?thesis by (simp add: c_mul_def c_int_def)
  next
    case False
    have "nx * ny \<le> nx * ny * nz" using False by simp
    then have "int (nx * ny) \<le> int (nx * ny * nz)" by (simp only: of_nat_le_iff)
    then have "int (nx * ny) \<le> 2147483647" using assms(1) by linarith
    then have "c_mul (int nx) (int ny) = int (nx * ny)" by (rule c_mul_nat)
    moreover have "c_mul (int (nx * ny)) (int nz) = int (nx * ny * nz)"
      by (rule c_mul_nat) (rule assms(1))
    ultimately show ?thesis by (simp only: nat_int)
  qed
  have "for_loop n_g (\<lambda>j. for_loop (nx * ny * nz) (\<lambda>k. flip_and_roll_point (int nx) (int ny) (int nz) r j k)) chans
      = Some (fold (\<lambda>j. fold (?u j) [0..<nx * ny * nz]) [0..<n_g] chans)
      \<and> ?I (fold (\<lambda>j. fold (?u j) [0..<nx * ny * nz]) [0..<n_g] chans)"
    by (rule for_loop_fold [where I = ?I]) (use assms lk in auto)
  then show ?thesis by (simp add: flip_and_roll_orientation_def nn)
qed

lemma flip_and_roll_Some:
  assumes dg: "dims grids = [int n_o, int n_g, int nx, int ny, int nz]"
    and N: "int (nx * ny * nz) \<le> 2147483647"
    and r: "0 \<le> r" "r + int nx \<le> 2147483648" "r + int ny \<le> 2147483648" "r + int nz \<le> 2147483648"
    and lg: "length (data grids) = n_o" "\<forall>i<n_o. length (data grids ! i) = n_g"
      "\<forall>i<n_o. \<forall>j<n_g. length (data grids ! i ! j) = nx * ny * nz"
  shows "\<exists>out. flip_and_roll grids r = Some out"
proof -
  let ?W = "\<lambda>c::real list list. length c = n_g \<and> (\<forall>j<n_g. length (c ! j) = nx * ny * nz)"
  let ?I = "\<lambda>d::real list list list. length d = n_o \<and> (\<forall>i<n_o. ?W (d ! i))"
  let ?o = "flip_and_roll_orientation (int n_g) (int nx) (int ny) (int nz) r"
  let ?body = "\<lambda>i d. case rd d (int i) of None \<Rightarrow> None
          | Some chans \<Rightarrow> (case ?o chans of None \<Rightarrow> None | Some chans' \<Rightarrow> wr d (int i) chans')"
  let ?f = "\<lambda>i (d::real list list list). d[i := the (?o (d ! i))]"
  have step: "?body i d = Some (?f i d) \<and> ?I (?f i d)" if "i < n_o" "?I d" for i d
  proof -
    have w: "length (d ! i) = n_g" "\<forall>j<n_g. length (d ! i ! j) = nx * ny * nz"
      using that by simp_all
    from flip_and_roll_orientation_Some [OF N r w]
    obtain out where out: "?o (d ! i) = Some out" "?W out" by blast
    have "?body i d = Some (?f i d)" using that out(1) by (simp add: rd_def wr_def)
    moreover have "?I (?f i d)" using that out by (auto simp: nth_list_update)
    ultimately show ?thesis by simp
  qed
  have "for_loop n_o ?body (data grids) = Some (fold ?f [0..<n_o] (data grids))
      \<and> ?I (fold ?f [0..<n_o] (data grids))"
    by (rule for_loop_fold [where I = ?I]) (use lg step in auto)
  then show ?thesis by (simp add: flip_and_roll_def PyArray_DIMS_def dg)
qed

lemma roll_cur_idx_range:
  assumes "a < nx" "b < ny" "c < nz" "int (nx * ny * nz) \<le> 2147483647"
    and "0 \<le> r" "r + int nx \<le> 2147483648" "r + int ny \<le> 2147483648" "r + int nz \<le> 2147483648"
  shows "0 \<le> roll_cur_idx (int nx) (int ny) (int nz) (int a) (int b) (int c) r \<and>
         roll_cur_idx (int nx) (int ny) (int nz) (int a) (int b) (int c) r < int (nx * ny * nz)"
proof -
  have m: "(a + nat r) mod nx < nx" "(b + nat r) mod ny < ny" "(c + nat r) mod nz < nz"
    using assms(1-3) by simp_all
  show ?thesis
    unfolding roll_cur_idx_nat [OF assms]
    using grid_idx_less [OF m] by (simp del: of_nat_mult)
qed

lemma smod_nonpos: "a \<le> 0 \<Longrightarrow> 0 < b \<Longrightarrow> (a::int) smod b = - ((- a) mod b)"
  by (cases "a = 0") (simp_all add: signed_modulo_int_def)

lemma c_mul_neg: "int (a * b) \<le> 2147483647 \<Longrightarrow> c_mul (- int a) (int b) = - int (a * b)"
proof -
  assume "int (a * b) \<le> 2147483647"
  moreover have "0 \<le> int (a * b)" by simp
  ultimately have "c_int (- int (a * b)) = - int (a * b)" by (intro c_int_id) linarith+
  then show ?thesis by (simp add: c_mul_def)
qed

lemma c_add_neg: "int a + int b \<le> 2147483647 \<Longrightarrow> c_add (- int a) (- int b) = - int (a + b)"
  by (simp add: c_add_def c_int_id)

lemma c_grid_idx_neg:
  assumes "x < nx" "y < ny" "z < nz" "int (nx * ny * nz) \<le> 2147483647"
  shows "c_add (c_add (c_mul (c_mul (- int x) (int ny)) (int nz)) (c_mul (- int y) (int nz))) (- int z)
         = - int (grid_idx ny nz x y z)"
proof -
  have nz: "0 < nz" using assms by simp
  have lt: "int (grid_idx ny nz x y z) \<le> 2147483647"
    using grid_idx_less [OF assms(1-3)] assms(4) by linarith
  have p: "x * ny \<le> grid_idx ny nz x y z" "x * ny * nz \<le> grid_idx ny nz x y z"
    "y * nz \<le> grid_idx ny nz x y z" "x * ny * nz + y * nz \<le> grid_idx ny nz x y z"
    by (rule grid_idx_parts [OF nz])+
  have 1: "c_mul (- int x) (int ny) = - int (x * ny)"
    by (rule c_mul_neg) (use p(1) lt in linarith)
  have 2: "c_mul (- int (x * ny)) (int nz) = - int (x * ny * nz)"
    by (rule c_mul_neg) (use p(2) lt in linarith)
  have 3: "c_mul (- int y) (int nz) = - int (y * nz)"
    by (rule c_mul_neg) (use p(3) lt in linarith)
  have 4: "c_add (- int (x * ny * nz)) (- int (y * nz)) = - int (x * ny * nz + y * nz)"
    by (rule c_add_neg) (use p(4) lt in linarith)
  have 5: "c_add (- int (x * ny * nz + y * nz)) (- int z) = - int (x * ny * nz + y * nz + z)"
    by (rule c_add_neg) (use lt in \<open>simp add: grid_idx_def\<close>)
  show ?thesis by (simp only: 1 2 3 4 5 grid_idx_def)
qed

lemma c_mod_shifted_neg:
  assumes "0 < n" "int t + r \<le> 0" "- 2147483648 \<le> r"
  shows "c_mod (c_add (int t) r) (int n) = - int (nat (- (int t + r)) mod n)"
proof -
  have "c_add (int t) r = int t + r"
    using assms by (simp add: c_add_def c_int_id)
  moreover have "(int t + r) smod int n = - ((- (int t + r)) mod int n)"
    by (rule smod_nonpos) (use assms in simp_all)
  moreover have "(- (int t + r)) mod int n = int (nat (- (int t + r)) mod n)"
    using assms(2) by (simp add: zmod_int)
  ultimately show ?thesis by (simp add: c_mod_def)
qed

lemma roll_cur_idx_neg:
  assumes "a < nx" "b < ny" "c < nz" "int (nx * ny * nz) \<le> 2147483647"
    and "int a + r \<le> 0" "int b + r \<le> 0" "int c + r \<le> 0" "- 2147483648 \<le> r"
  shows "roll_cur_idx (int nx) (int ny) (int nz) (int a) (int b) (int c) r =
         - int (grid_idx ny nz (nat (- (int a + r)) mod nx) (nat (- (int b + r)) mod ny)
                  (nat (- (int c + r)) mod nz))"
proof -
  have pos: "0 < nx" "0 < ny" "0 < nz" using assms by simp_all
  have m: "nat (- (int a + r)) mod nx < nx" "nat (- (int b + r)) mod ny < ny"
    "nat (- (int c + r)) mod nz < nz"
    using pos by simp_all
  show ?thesis
    unfolding roll_cur_idx_def c_mod_shifted_neg [OF pos(1) assms(5,8)]
      c_mod_shifted_neg [OF pos(2) assms(6,8)] c_mod_shifted_neg [OF pos(3) assms(7,8)]
    by (rule c_grid_idx_neg [OF m assms(4)])
qed

lemma pick_coordinate:
  assumes "r < 0" "0 < n"
  shows "\<exists>t<n. int t + r \<le> 0 \<and> (2 \<le> n \<longrightarrow> nat (- (int t + r)) mod n \<noteq> 0)"
proof (cases "2 \<le> n \<and> nat (- r) mod n = 0")
  case False
  then have "int 0 + r \<le> 0 \<and> (2 \<le> n \<longrightarrow> nat (- (int 0 + r)) mod n \<noteq> 0)"
    using assms(1) by auto
  then show ?thesis using assms(2) by blast
next
  case True
  define m where "m = nat (- r)"
  have m: "1 \<le> m" "n dvd m" using True assms(1) by (auto simp: m_def)
  have "\<not> n dvd (m - 1)"
  proof
    assume "n dvd (m - 1)"
    with m(2) have "n dvd (m - (m - 1))" by (rule dvd_diff_nat)
    then have "n dvd 1" using m(1) by simp
    then show False using True by simp
  qed
  moreover have "nat (- (int 1 + r)) = m - 1" by (simp add: m_def)
  ultimately have "int 1 + r \<le> 0 \<and> (2 \<le> n \<longrightarrow> nat (- (int 1 + r)) mod n \<noteq> 0)"
    using assms(1) by (simp add: mod_eq_0_iff_dvd)
  moreover have "1 < n" using True by simp
  ultimately show ?thesis by blast
qed

lemma roll_cur_idx_negative_roll:
  assumes "0 < nx" "0 < ny" "0 < nz" "2 \<le> nx \<or> 2 \<le> ny \<or> 2 \<le> nz"
    and "int (nx * ny * nz) \<le> 2147483647" "r < 0" "- 2147483648 \<le> r"
  shows "\<exists>a<nx. \<exists>b<ny. \<exists>c<nz.
           roll_cur_idx (int nx) (int ny) (int nz) (int a) (int b) (int c) r < 0"
proof -
  from pick_coordinate [OF assms(6) assms(1)] obtain a where
    a: "a < nx" "int a + r \<le> 0" "2 \<le> nx \<longrightarrow> nat (- (int a + r)) mod nx \<noteq> 0" by blast
  from pick_coordinate [OF assms(6) assms(2)] obtain b where
    b: "b < ny" "int b + r \<le> 0" "2 \<le> ny \<longrightarrow> nat (- (int b + r)) mod ny \<noteq> 0" by blast
  from pick_coordinate [OF assms(6) assms(3)] obtain c where
    c: "c < nz" "int c + r \<le> 0" "2 \<le> nz \<longrightarrow> nat (- (int c + r)) mod nz \<noteq> 0" by blast
  define A B C where "A = nat (- (int a + r)) mod nx" and "B = nat (- (int b + r)) mod ny"
    and "C = nat (- (int c + r)) mod nz"
  have "A \<noteq> 0 \<or> B \<noteq> 0 \<or> C \<noteq> 0" using assms(4) a(3) b(3) c(3) by (auto simp: A_def B_def C_def)
  then have "0 < grid_idx ny nz A B C" using assms(2,3) by (auto simp: grid_idx_def)
  then have "roll_cur_idx (int nx) (int ny) (int nz) (int a) (int b) (int c) r < 0"
    unfolding roll_cur_idx_neg [OF a(1) b(1) c(1) assms(5) a(2) b(2) c(2) assms(7)]
    by (simp add: A_def B_def C_def)
  then show ?thesis using a(1) b(1) c(1) by blast
qed

lemma lowest_keep:
  assumes "lowest K M" "\<forall>a\<in>#K. a \<le> s"
  shows "lowest K (add_mset s M)"
proof -
  from assms(1) obtain R where R: "M = K + R" "\<forall>a\<in>#K. \<forall>b\<in>#R. a \<le> b"
    by (auto simp: lowest_def)
  have "add_mset s M = K + add_mset s R" using R(1) by simp
  moreover have "\<forall>a\<in>#K. \<forall>b\<in>#add_mset s R. a \<le> b" using R(2) assms(2) by auto
  ultimately show ?thesis unfolding lowest_def by blast
qed

lemma lowest_replace:
  assumes "lowest K M" "m \<in># K" "\<forall>a\<in>#K. a \<le> m" "s < m"
  shows "lowest (add_mset s (K - {#m#})) (add_mset s M)"
proof -
  from assms(1) obtain R where R: "M = K + R" "\<forall>a\<in>#K. \<forall>b\<in>#R. a \<le> b"
    by (auto simp: lowest_def)
  have K: "K = add_mset m (K - {#m#})" using assms(2) by simp
  have "M = add_mset m (K - {#m#}) + R" using R(1) K by simp
  then have 1: "add_mset s M = add_mset s (K - {#m#}) + add_mset m R" by simp
  have in_K: "a \<in># K" if "a \<in># K - {#m#}" for a using that by (rule in_diffD)
  have 2: "a \<le> b" if "a \<in># add_mset s (K - {#m#})" "b \<in># add_mset m R" for a b
  proof -
    have a: "a \<le> m" using that(1) assms(3,4) in_K by auto
    have "m \<le> b" using that(2) R(2) assms(2) by auto
    with a show ?thesis by simp
  qed
  show ?thesis unfolding lowest_def using 1 2 by blast
qed

lemma lowest_sorted:
  assumes "lowest K M"
  shows "mset (take (size K) (sorted_list_of_multiset M)) = K"
proof -
  from assms(1) obtain R where R: "M = K + R" "\<forall>a\<in>#K. \<forall>b\<in>#R. a \<le> b"
    by (auto simp: lowest_def)
  let ?A = "sorted_list_of_multiset K" and ?B = "sorted_list_of_multiset R"
  have "sorted (?A @ ?B)" using R(2) by (auto simp: sorted_append)
  then have "sort (?A @ ?B) = ?A @ ?B" by (rule sorted_sort_id)
  moreover have "mset (?A @ ?B) = M" using R(1) by simp
  ultimately have "sorted_list_of_multiset M = ?A @ ?B"
    using sorted_list_of_multiset_mset [of "?A @ ?B"] by simp
  moreover have "length ?A = size K" by (metis mset_sorted_list_of_multiset size_mset)
  ultimately show ?thesis by simp
qed

lemma lowest_count:
  assumes "lowest K M" "m \<in># K" "s < m"
  shows "size {#x \<in># M. x \<le> s#} < size K"
proof -
  from assms(1) obtain R where R: "M = K + R" "\<forall>a\<in>#K. \<forall>b\<in>#R. a \<le> b"
    by (auto simp: lowest_def)
  have "\<not> b \<le> s" if "b \<in># R" for b
    using R(2) assms(2,3) that by fastforce
  then have "{#x \<in># R. x \<le> s#} = {#}" by simp
  then have fr: "size {#x \<in># M. x \<le> s#} = size {#x \<in># K. x \<le> s#}"
    by (simp only: R(1) filter_union_mset add.right_neutral)
  from assms(2) obtain K' where K': "K = add_mset m K'" by (blast dest: multi_member_split)
  have "{#x \<in># K. x \<le> s#} = {#x \<in># K'. x \<le> s#}" using assms(3) by (simp add: K')
  then have "size {#x \<in># K. x \<le> s#} \<le> size K'" by simp
  also have "\<dots> < size K" by (simp add: K')
  finally show ?thesis by (simp only: fr)
qed

lemma comparator_le: "comparator a b \<le> 0 \<longleftrightarrow> score b \<le> score a"
  by (auto simp: comparator_def Let_def)

lemma qsort_sortsD:
  assumes "qsort_sorts q"
  shows "mset (q comparator xs) = mset xs"
    and "sorted_wrt (\<lambda>a b. score b \<le> score a) (q comparator xs)"
    and "length (q comparator xs) = length xs"
    and "set (q comparator xs) = set xs"
proof -
  show m: "mset (q comparator xs) = mset xs" using assms by (simp add: qsort_sorts_def)
  have "sorted_wrt (\<lambda>a b. comparator a b \<le> 0) (q comparator xs)"
    using assms by (simp add: qsort_sorts_def)
  then show "sorted_wrt (\<lambda>a b. score b \<le> score a) (q comparator xs)"
    by (simp only: comparator_le)
  show "length (q comparator xs) = length xs" using m by (rule mset_eq_length)
  show "set (q comparator xs) = set xs" using m by (rule mset_eq_setD)
qed

lemma qsort_heap_full:
  "qsort_heap q (map Some ps) = Some (map Some (q comparator ps))"
  by (simp add: qsort_heap_def list_all_iff comp_def)

lemma heap_invD:
  assumes "heap_inv scores N i ps"
  shows "length ps = N"
    and "sorted_wrt (\<lambda>a b. score b \<le> score a) ps"
    and "distinct (map index ps)"
    and "\<forall>p\<in>set ps. 0 \<le> index p \<and> index p < int i \<and> score p = scores ! nat (index p)"
    and "lowest (mset (map score ps)) (mset (take i scores))"
    and "\<forall>p\<in>set ps. int N \<le> index p \<longrightarrow>
         length (filter (\<lambda>x. x \<le> score p) (take (nat (index p)) scores)) < N"
  using assms unfolding heap_inv_def by blast+

lemma heap_invI:
  assumes "length ps = N"
    and "sorted_wrt (\<lambda>a b. score b \<le> score a) ps"
    and "distinct (map index ps)"
    and "\<forall>p\<in>set ps. 0 \<le> index p \<and> index p < int i \<and> score p = scores ! nat (index p)"
    and "lowest (mset (map score ps)) (mset (take i scores))"
    and "\<forall>p\<in>set ps. int N \<le> index p \<longrightarrow>
         length (filter (\<lambda>x. x \<le> score p) (take (nat (index p)) scores)) < N"
  shows "heap_inv scores N i ps"
  using assms unfolding heap_inv_def by blast

lemma heap_top:
  assumes "sorted_wrt (\<lambda>a b. score b \<le> score a) (p0 # rest)"
  shows "\<forall>a\<in>#mset (map score (p0 # rest)). a \<le> score p0"
  using assms by auto

lemma heap_step_keep:
  assumes "heap_inv scores N i (p0 # rest)" "i < length scores" "\<not> scores ! i < score p0"
  shows "heap_inv scores N (Suc i) (p0 # rest)"
proof -
  let ?ps = "p0 # rest"
  let ?K = "mset (map score ?ps)"
  note inv = heap_invD [OF assms(1)]
  have "\<forall>a\<in>#?K. a \<le> score p0" by (rule heap_top [OF inv(2)])
  then have "\<forall>a\<in>#?K. a \<le> scores ! i" using assms(3) by fastforce
  with inv(5) have "lowest ?K (add_mset (scores ! i) (mset (take i scores)))" by (rule lowest_keep)
  then have 5: "lowest ?K (mset (take (Suc i) scores))"
    using assms(2) by (simp add: take_Suc_conv_app_nth)
  have 4: "\<forall>p\<in>set ?ps. 0 \<le> index p \<and> index p < int (Suc i) \<and> score p = scores ! nat (index p)"
    using inv(4) by fastforce
  show ?thesis by (rule heap_invI [OF inv(1-3) 4 5 inv(6)])
qed

lemma heap_step_replace:
  assumes "heap_inv scores N i (p0 # rest)" "i < length scores" "scores ! i < score p0"
    and "N \<le> i" "qsort_sorts q"
  shows "heap_inv scores N (Suc i)
     (q comparator (\<lparr>index = int i, score = scores ! i\<rparr> # rest))"
proof -
  let ?ps = "p0 # rest"
  let ?new = "\<lparr>index = int i, score = scores ! i\<rparr>"
  let ?ps' = "q comparator (?new # rest)"
  let ?K = "mset (map score ?ps)"
  note inv = heap_invD [OF assms(1)]
  note qs = qsort_sortsD [OF assms(5), of "?new # rest"]
  have 1: "length ?ps' = N" using qs(3) inv(1) by simp
  have "int i \<notin> index ` set rest" using inv(4) by fastforce
  then have dx: "distinct (map index (?new # rest))" using inv(3) by simp
  have e: "mset (map index ?ps') = mset (map index (?new # rest))"
    by (simp only: mset_map qs(1))
  have 3: "distinct (map index ?ps')"
    by (rule mset_eq_imp_distinct_iff [OF e, THEN iffD2]) (rule dx)
  have 4: "\<forall>p\<in>set ?ps'. 0 \<le> index p \<and> index p < int (Suc i) \<and> score p = scores ! nat (index p)"
    unfolding qs(4) using inv(4) by fastforce
  have top: "\<forall>a\<in>#?K. a \<le> score p0" by (rule heap_top [OF inv(2)])
  have m: "score p0 \<in># ?K" by simp
  have "lowest (add_mset (scores ! i) (?K - {#score p0#})) (add_mset (scores ! i) (mset (take i scores)))"
    by (rule lowest_replace [OF inv(5) m top assms(3)])
  moreover have "mset (map score ?ps') = add_mset (scores ! i) (?K - {#score p0#})"
  proof -
    have "mset (map score ?ps') = mset (map score (?new # rest))" by (simp only: mset_map qs(1))
    then show ?thesis by simp
  qed
  ultimately have 5: "lowest (mset (map score ?ps')) (mset (take (Suc i) scores))"
    using assms(2) by (simp add: take_Suc_conv_app_nth)
  have "size {#x \<in># mset (take i scores). x \<le> scores ! i#} < size ?K"
    by (rule lowest_count [OF inv(5) m assms(3)])
  then have c: "length (filter (\<lambda>x. x \<le> scores ! i) (take i scores)) < N"
    using inv(1) by (metis mset_filter size_mset length_map)
  have 6: "\<forall>p\<in>set ?ps'. int N \<le> index p \<longrightarrow>
         length (filter (\<lambda>x. x \<le> score p) (take (nat (index p)) scores)) < N"
    unfolding qs(4) using inv(6) c by simp
  show ?thesis by (rule heap_invI [OF 1 qs(2) 3 4 5 6])
qed

lemma fill_phase:
  assumes "i < N" "i \<le> length scores"
  shows "for_loop i (get_top_n_scores_step q scores (int N)) (replicate N None) =
     Some (map (\<lambda>j. Some \<lparr>index = int j, score = scores ! j\<rparr>) [0..<i] @ replicate (N - i) None)"
  using assms
proof (induction i)
  case 0
  show ?case by simp
next
  case (Suc i)
  let ?f = "\<lambda>j. Some \<lparr>index = int j, score = scores ! j\<rparr>"
  let ?h = "map ?f [0..<i] @ replicate (N - i) None"
  have ih: "for_loop i (get_top_n_scores_step q scores (int N)) (replicate N None) = Some ?h"
    by (rule Suc.IH) (use Suc.prems in simp_all)
  have r: "replicate (N - i) None = (None :: ScoreIndexPair option) # replicate (N - Suc i) None"
    using Suc.prems(1) by (cases "N - i") (simp_all add: Suc_diff_Suc)
  have u: "?h[i := ?f i] = map ?f [0..<Suc i] @ replicate (N - Suc i) None"
    by (simp add: list_update_append r)
  have "get_top_n_scores_step q scores (int N) i ?h = Some (?h[i := ?f i])"
    using Suc.prems by (simp add: get_top_n_scores_step_def rd_def wr_def)
  then show ?case using ih by (simp only: for_loop.simps option.case u)
qed

lemma fill_last_Suc:
  assumes "Suc i \<le> length scores"
  shows "for_loop (Suc i) (get_top_n_scores_step q scores (int (Suc i))) (replicate (Suc i) None) =
     Some (map Some (q comparator (map (\<lambda>j. \<lparr>index = int j, score = scores ! j\<rparr>) [0..<Suc i])))"
proof -
  let ?f = "\<lambda>j. Some \<lparr>index = int j, score = scores ! j\<rparr>"
  let ?h = "map ?f [0..<i] @ [None]"
  have "for_loop i (get_top_n_scores_step q scores (int (Suc i))) (replicate (Suc i) None)
      = Some (map ?f [0..<i] @ replicate (Suc i - i) None)"
    by (rule fill_phase) (use assms in simp_all)
  then have ih: "for_loop i (get_top_n_scores_step q scores (int (Suc i))) (replicate (Suc i) None)
      = Some ?h" by simp
  have u: "?h[i := ?f i] = map Some (map (\<lambda>j. \<lparr>index = int j, score = scores ! j\<rparr>) [0..<Suc i])"
    by (simp add: list_update_append)
  have rd: "rd scores (int i) = Some (scores ! i)" using assms by (simp add: rd_def)
  have wr: "wr ?h (int i) (?f i) = Some (?h[i := ?f i])" by (simp add: wr_def)
  have "get_top_n_scores_step q scores (int (Suc i)) i ?h = qsort_heap q (?h[i := ?f i])"
    by (simp add: get_top_n_scores_step_def rd wr del: of_nat_Suc)
  then have st: "get_top_n_scores_step q scores (int (Suc i)) i ?h =
      Some (map Some (q comparator (map (\<lambda>j. \<lparr>index = int j, score = scores ! j\<rparr>) [0..<Suc i])))"
    by (simp only: u qsort_heap_full)
  show ?thesis using ih st by (simp only: for_loop.simps option.case)
qed

lemma fill_last:
  assumes "1 \<le> N" "N \<le> length scores"
  shows "for_loop N (get_top_n_scores_step q scores (int N)) (replicate N None) =
     Some (map Some (q comparator (map (\<lambda>j. \<lparr>index = int j, score = scores ! j\<rparr>) [0..<N])))"
proof -
  obtain i where N: "N = Suc i" using assms(1) by (cases N) simp_all
  show ?thesis unfolding N by (rule fill_last_Suc) (use assms(2) N in simp)
qed

lemma heap_inv_initial:
  assumes "qsort_sorts q" "N \<le> length scores"
  shows "heap_inv scores N N
     (q comparator (map (\<lambda>j. \<lparr>index = int j, score = scores ! j\<rparr>) [0..<N]))"
proof -
  define xs where "xs = map (\<lambda>j. \<lparr>index = int j, score = scores ! j\<rparr>) [0..<N]"
  define ps where "ps = q comparator xs"
  note qs = qsort_sortsD [OF assms(1), of xs, folded ps_def]
  have lx: "length xs = N" by (simp add: xs_def)
  have ix: "map index xs = map int [0..<N]" by (simp add: xs_def)
  have sx: "map score xs = take N scores"
  proof (rule nth_equalityI)
    show "length (map score xs) = length (take N scores)" using assms(2) lx by simp
    show "map score xs ! j = take N scores ! j" if "j < length (map score xs)" for j
      using that lx by (simp add: xs_def)
  qed
  have mem: "0 \<le> index p \<and> index p < int N \<and> score p = scores ! nat (index p)"
    if "p \<in> set xs" for p
    using that by (auto simp: xs_def)
  have 1: "length ps = N" using qs(3) lx by simp
  have "distinct (map int [0..<N])" by (simp add: distinct_map inj_on_def)
  then have dx: "distinct (map index xs)" by (simp only: ix)
  have e: "mset (map index ps) = mset (map index xs)" by (simp only: mset_map qs(1))
  have 3: "distinct (map index ps)"
    by (rule mset_eq_imp_distinct_iff [OF e, THEN iffD2]) (rule dx)
  have 4: "\<forall>p\<in>set ps. 0 \<le> index p \<and> index p < int N \<and> score p = scores ! nat (index p)"
    unfolding qs(4) using mem by blast
  have "mset (map score ps) = mset (map score xs)" by (simp only: mset_map qs(1))
  then have "mset (take N scores) = mset (map score ps) + {#}" by (simp only: sx add.right_neutral)
  moreover have "\<forall>a\<in>#mset (map score ps). \<forall>b\<in>#({#} :: real multiset). a \<le> b" by simp
  ultimately have 5: "lowest (mset (map score ps)) (mset (take N scores))"
    unfolding lowest_def by blast
  have "\<not> int N \<le> index p" if "p \<in> set ps" for p
    using 4 that by fastforce
  then have 6: "\<forall>p\<in>set ps. int N \<le> index p \<longrightarrow>
         length (filter (\<lambda>x. x \<le> score p) (take (nat (index p)) scores)) < N"
    by blast
  have "heap_inv scores N N ps" by (rule heap_invI [OF 1 qs(2) 3 4 5 6])
  then show ?thesis by (simp only: ps_def xs_def)
qed

lemma heap_step:
  assumes "heap_inv scores N i ps" "N \<le> i" "i < length scores" "1 \<le> N" "qsort_sorts q"
  shows "\<exists>ps'. get_top_n_scores_step q scores (int N) i (map Some ps) = Some (map Some ps') \<and>
           heap_inv scores N (Suc i) ps'"
proof -
  have len: "length ps = N" by (rule heap_invD(1) [OF assms(1)])
  then obtain p0 rest where ps: "ps = p0 # rest" using assms(4) by (cases ps) simp_all
  have rd: "rd scores (int i) = Some (scores ! i)" using assms(3) by (simp add: rd_def)
  have r0: "rd (map Some ps) 0 = Some (Some p0)" by (simp add: rd_def ps)
  have w0: "wr (map Some ps) 0 v = Some (v # map Some rest)" for v by (simp add: wr_def ps)
  have ge: "\<not> int i < int N" using assms(2) by simp
  show ?thesis
  proof (cases "scores ! i < score p0")
    case True
    have "get_top_n_scores_step q scores (int N) i (map Some ps)
        = qsort_heap q (map Some (\<lparr>index = int i, score = scores ! i\<rparr> # rest))"
      using True ge by (simp add: get_top_n_scores_step_def rd r0 w0)
    then have "get_top_n_scores_step q scores (int N) i (map Some ps)
        = Some (map Some (q comparator (\<lparr>index = int i, score = scores ! i\<rparr> # rest)))"
      by (simp only: qsort_heap_full)
    moreover have "heap_inv scores N (Suc i) (q comparator (\<lparr>index = int i, score = scores ! i\<rparr> # rest))"
      by (rule heap_step_replace [OF assms(1) [unfolded ps] assms(3) True assms(2,5)])
    ultimately show ?thesis by blast
  next
    case False
    have "get_top_n_scores_step q scores (int N) i (map Some ps) = Some (map Some ps)"
      using False ge by (simp add: get_top_n_scores_step_def rd r0)
    moreover have "heap_inv scores N (Suc i) ps"
      unfolding ps by (rule heap_step_keep [OF assms(1) [unfolded ps] assms(3) False])
    ultimately show ?thesis by blast
  qed
qed

lemma heap_loop:
  assumes "1 \<le> N" "N \<le> k" "k \<le> length scores" "qsort_sorts q"
  shows "\<exists>ps. for_loop k (get_top_n_scores_step q scores (int N)) (replicate N None)
               = Some (map Some ps) \<and> heap_inv scores N k ps"
  using assms(2,3)
proof (induction k)
  case 0
  then show ?case using assms(1) by simp
next
  case (Suc k)
  show ?case
  proof (cases "N = Suc k")
    case True
    have "N \<le> length scores" using Suc.prems True by simp
    then show ?thesis
      using fill_last [OF assms(1), of scores q] heap_inv_initial [OF assms(4), of N scores]
      unfolding True [symmetric] by blast
  next
    case False
    then have Nk: "N \<le> k" "k < length scores" using Suc.prems by simp_all
    then obtain ps where ps: "for_loop k (get_top_n_scores_step q scores (int N)) (replicate N None)
               = Some (map Some ps)" "heap_inv scores N k ps"
      using Suc.IH by auto
    from heap_step [OF ps(2) Nk assms(1,4)] show ?thesis using ps(1) by simp
  qed
qed

lemma mset_insert_sorted: "mset (insert_sorted cmp x ys) = add_mset x (mset ys)"
  by (induction ys) simp_all

lemma set_insert_sorted: "set (insert_sorted cmp x ys) = insert x (set ys)"
  by (induction ys) auto

lemma sorted_insert_sorted:
  assumes "sorted_wrt (\<lambda>a b. score b \<le> score a) ys"
  shows "sorted_wrt (\<lambda>a b. score b \<le> score a) (insert_sorted comparator x ys)"
  using assms
proof (induction ys)
  case Nil
  show ?case by simp
next
  case (Cons y ys)
  show ?case
  proof (cases "comparator x y \<le> 0")
    case True
    then have "score y \<le> score x" by (simp only: comparator_le)
    moreover have "\<forall>z\<in>set ys. score z \<le> score y" using Cons.prems by simp
    ultimately have "\<forall>z\<in>set (y # ys). score z \<le> score x" by fastforce
    then show ?thesis using True Cons.prems by simp
  next
    case False
    then have "score x \<le> score y" by (simp add: comparator_le)
    then show ?thesis using False Cons by (simp add: set_insert_sorted)
  qed
qed

lemma stable_qsort_sorts: "qsort_sorts stable_qsort"
proof -
  have m: "mset (stable_qsort comparator xs) = mset xs" for xs
    unfolding stable_qsort_def by (induction xs) (simp_all add: mset_insert_sorted)
  have s: "sorted_wrt (\<lambda>a b. score b \<le> score a) (stable_qsort comparator xs)" for xs
    unfolding stable_qsort_def by (induction xs) (simp_all add: sorted_insert_sorted)
  show ?thesis unfolding qsort_sorts_def comparator_le using m s by blast
qed





lemma grid_points_1_1_2: "grid_points 1 1 2 = [(0, 0, 0), (0, 0, 1)]"
  by (simp add: grid_points_def numeral_2_eq_2 upt_rec)

lemma brute_force_1_1_2:
  "brute_force_cross_correlation 1 1 2 [a, b] [c, d] = [a * c + b * d, a * d + b * c]"
  unfolding brute_force_cross_correlation_def grid_points_1_1_2
  by (simp add: grid_idx_def)

section \<open>The claims\<close>

text \<open>
  C1, evaluated on the code. Both plans are created with \<open>FFTW_MEASURE\<close> on
  \<open>recep_arr\<close> and \<open>lig_arr\<close>, which hold the first target field and the first
  candidate field, and FFTW overwrites the arrays of a plan while it measures. On a
  \<open>1 * 1 * 2\<close> grid with the two-point DFT: when planning leaves the buffers as they
  are, the candidate buffer ends as the brute-force cross-correlation, whatever the two
  fields hold; when planning leaves zeros, the target \<open>[1, 2]\<close> and the candidate
  \<open>[3, 5]\<close> end as \<open>[0, 0]\<close> and \<open>[0, 0]\<close>, while the brute-force
  cross-correlation of the original fields is \<open>[13, 11]\<close>.
\<close>

theorem fft_correlate_batch_planning_overwrites:
  "fft_correlate_batch dft2
     \<lparr>dims = [1, 1, 1, 2], type_num = NPY_FLOAT32, data = [[a, b]]\<rparr>
     \<lparr>dims = [1, 1, 1, 1, 2], type_num = NPY_FLOAT32, data = [[[c, d]]]\<rparr> 1
     = Some (\<lparr>dims = [1, 1, 1, 2], type_num = NPY_FLOAT32, data = [[a, b]]\<rparr>,
             \<lparr>dims = [1, 1, 1, 1, 2], type_num = NPY_FLOAT32,
              data = [[brute_force_cross_correlation 1 1 2 [a, b] [c, d]]]\<rparr>) \<and>
   fft_correlate_batch dft2_fresh
     \<lparr>dims = [1, 1, 1, 2], type_num = NPY_FLOAT32, data = [[1, 2]]\<rparr>
     \<lparr>dims = [1, 1, 1, 1, 2], type_num = NPY_FLOAT32, data = [[[3, 5]]]\<rparr> 1
     = Some (\<lparr>dims = [1, 1, 1, 2], type_num = NPY_FLOAT32, data = [[0, 0]]\<rparr>,
             \<lparr>dims = [1, 1, 1, 1, 2], type_num = NPY_FLOAT32, data = [[[0, 0]]]\<rparr>) \<and>
   brute_force_cross_correlation 1 1 2 [1, 2] [3, 5] = [13, 11]"
proof -
  have 1: "fft_correlate_batch dft2
     \<lparr>dims = [1, 1, 1, 2], type_num = NPY_FLOAT32, data = [[a, b]]\<rparr>
     \<lparr>dims = [1, 1, 1, 1, 2], type_num = NPY_FLOAT32, data = [[[c, d]]]\<rparr> 1
     = Some (\<lparr>dims = [1, 1, 1, 2], type_num = NPY_FLOAT32, data = [[a, b]]\<rparr>,
             \<lparr>dims = [1, 1, 1, 1, 2], type_num = NPY_FLOAT32,
              data = [[[a * c + b * d, a * d + b * c]]]\<rparr>)"
    by (simp add: fft_correlate_batch_def correlate_orientation_def conj_multiply_def
        create_plans_def fftwf_plan_measure_def dft2_def
        fftwf_execute_dft_r2c_def PyArray_DIMS_def rd_def wr_def c_arith_defs Let_def
        numeral_2_eq_2 algebra_simps)
  have 2: "fft_correlate_batch dft2_fresh
     \<lparr>dims = [1, 1, 1, 2], type_num = NPY_FLOAT32, data = [[1, 2]]\<rparr>
     \<lparr>dims = [1, 1, 1, 1, 2], type_num = NPY_FLOAT32, data = [[[3, 5]]]\<rparr> 1
     = Some (\<lparr>dims = [1, 1, 1, 2], type_num = NPY_FLOAT32, data = [[0, 0]]\<rparr>,
             \<lparr>dims = [1, 1, 1, 1, 2], type_num = NPY_FLOAT32, data = [[[0, 0]]]\<rparr>)"
    by (simp add: fft_correlate_batch_def correlate_orientation_def conj_multiply_def
        create_plans_def fftwf_plan_measure_def dft2_def dft2_fresh_def
        fftwf_execute_dft_r2c_def PyArray_DIMS_def rd_def wr_def c_arith_defs Let_def
        numeral_2_eq_2)
  have 3: "brute_force_cross_correlation 1 1 2 [1, 2] [3, 5] = [13, 11]"
    unfolding brute_force_1_1_2 by simp
  show ?thesis using 1 2 3 by (simp only: brute_force_1_1_2 simp_thms)
qed

text \<open>
  C2 as stated fails on a tie. With the scores \<open>[5, 5, 3]\<close>, capacity 2 and a \<open>qsort\<close>
  that leaves equal elements in place, the heap after two scores is index 0 before
  index 1; the third score replaces the front entry, index 0. The output keeps index 1
  and drops the earlier index 0 of the same score.
\<close>

theorem get_top_n_scores_tie_counterexample:
  "get_top_n_scores stable_qsort [5, 5, 3] 3 2 =
     Some [Some \<lparr>index = 1, score = 5\<rparr>, Some \<lparr>index = 2, score = 3\<rparr>]"
  by code_simp

text \<open>
  C2, amended: for a capacity \<open>N\<close> of at least 1, a stream of at least \<open>N\<close> scores
  and any \<open>qsort\<close> that sorts, the output holds \<open>N\<close> entries with distinct stream
  indices, each with the score at its index; their scores are the first \<open>N\<close> of the
  stream sorted in ascending order; and an entry that came after the first \<open>N\<close> is
  kept only if fewer than \<open>N\<close> of the scores before it were lower than or equal to
  its own, so a later entry never displaces an entry of equal score.
\<close>

theorem get_top_n_scores_lowest:
  assumes "qsort_sorts qsort" "1 \<le> N" "N \<le> n" "n \<le> length scores"
  shows "\<exists>ps. get_top_n_scores qsort scores (int n) (int N) = Some (map Some ps) \<and>
           length ps = N \<and>
           distinct (map index ps) \<and>
           (\<forall>p\<in>set ps. 0 \<le> index p \<and> index p < int n \<and> score p = scores ! nat (index p)) \<and>
           mset (map score ps) = mset (take N (sort (take n scores))) \<and>
           (\<forall>p\<in>set ps. int N \<le> index p \<longrightarrow>
              length (filter (\<lambda>x. x \<le> score p) (take (nat (index p)) scores)) < N)"
proof -
  from heap_loop [OF assms(2-4) assms(1)]
  obtain ps where ps: "for_loop n (get_top_n_scores_step qsort scores (int N)) (replicate N None)
               = Some (map Some ps)" "heap_inv scores N n ps"
    by blast
  note inv = heap_invD [OF ps(2)]
  have "mset (take (size (mset (map score ps))) (sorted_list_of_multiset (mset (take n scores))))
      = mset (map score ps)"
    by (rule lowest_sorted [OF inv(5)])
  then have "mset (map score ps) = mset (take N (sort (take n scores)))"
    using inv(1) by simp
  moreover have "get_top_n_scores qsort scores (int n) (int N) = Some (map Some ps)"
    using ps(1) by (simp add: get_top_n_scores_def)
  ultimately show ?thesis using inv(1,3,4,6) by blast
qed

theorem get_top_n_scores_lowest_witness:
  "qsort_sorts stable_qsort \<and>
   get_top_n_scores stable_qsort [4, 1, 3, 1, 2, 0] 6 3 =
     Some [Some \<lparr>index = 3, score = 1\<rparr>, Some \<lparr>index = 1, score = 1\<rparr>,
           Some \<lparr>index = 5, score = 0\<rparr>] \<and>
   sort (take 6 [4, 1, 3, 1, 2, 0::real]) = [0, 1, 1, 2, 3, 4] \<and>
   (\<exists>ps. get_top_n_scores stable_qsort [4, 1, 3, 1, 2, 0] 6 3 = Some (map Some ps) \<and>
         length ps = 3 \<and> distinct (map index ps) \<and>
         mset (map score ps) = mset (take 3 (sort (take 6 [4, 1, 3, 1, 2, 0]))))"
proof -
  have h: "(1::nat) \<le> 3" "(3::nat) \<le> 6" "6 \<le> length [4, 1, 3, 1, 2, 0::real]" by simp_all
  have e: "get_top_n_scores stable_qsort [4, 1, 3, 1, 2, 0] 6 3 =
     Some [Some \<lparr>index = 3, score = 1\<rparr>, Some \<lparr>index = 1, score = 1\<rparr>,
           Some \<lparr>index = 5, score = 0\<rparr>]"
    by code_simp
  have s: "sort (take 6 [4, 1, 3, 1, 2, 0::real]) = [0, 1, 1, 2, 3, 4]" by simp
  from get_top_n_scores_lowest [OF stable_qsort_sorts h]
  obtain ps where "get_top_n_scores stable_qsort [4, 1, 3, 1, 2, 0] (int 6) (int 3) = Some (map Some ps)"
    "length ps = 3" "distinct (map index ps)"
    "mset (map score ps) = mset (take 3 (sort (take 6 [4, 1, 3, 1, 2, 0])))"
    by blast
  then have "\<exists>ps. get_top_n_scores stable_qsort [4, 1, 3, 1, 2, 0] 6 3 = Some (map Some ps) \<and>
         length ps = 3 \<and> distinct (map index ps) \<and>
         mset (map score ps) = mset (take 3 (sort (take 6 [4, 1, 3, 1, 2, 0])))"
    by auto
  then show ?thesis using stable_qsort_sorts e s by blast
qed

text \<open>
  C3, evaluated on the code. The wrapper compares the numbers of dimensions, the element
  types and the channel counts, and nothing else. A receptor of shape \<open>(1, 1, 1, 2)\<close>
  and a result of shape \<open>(1, 1, 1, 1, 1)\<close> pass: \<open>fft_correlate_batch\<close> is called,
  and the inverse plan of shape \<open>(1, 1, 2)\<close> is created on a candidate buffer that
  holds one float.
\<close>

theorem py_fft_correlate_batch_spatial_mismatch:
  "py_fft_correlate_batch B
     \<lparr>dims = [1, 1, 1, 2], type_num = NPY_FLOAT32, data = [[1, 2]]\<rparr>
     \<lparr>dims = [1, 1, 1, 1, 1], type_num = NPY_FLOAT32, data = [[[5]]]\<rparr> 1
     = Inr None"
  by (simp add: py_fft_correlate_batch_def fft_correlate_batch_def PyArray_NDIM_def
      PyArray_TYPE_def PyArray_DIMS_def create_plans_def fftwf_plan_measure_def rd_def
      c_mul_def c_int_def Let_def)

theorem py_fft_correlate_batch_spatial_mismatch_witness:
  "py_fft_correlate_batch
     \<lparr>dft_r2c = map complex_of_real, dft_c2r = map Re,
      measure_r2c = (\<lambda>f. f), measure_c2r = (\<lambda>f. f)\<rparr>
     \<lparr>dims = [1, 1, 1, 2], type_num = NPY_FLOAT32, data = [[1, 2]]\<rparr>
     \<lparr>dims = [1, 1, 1, 1, 1], type_num = NPY_FLOAT32, data = [[[5]]]\<rparr> 1
     = Inr None"
  by (rule py_fft_correlate_batch_spatial_mismatch)




text \<open>
  C5 as stated fails: \<open>sum_grids\<close> adds to what the result buffer holds. With one channel,
  \<open>roll_steps = 0\<close> and a \<open>1 * 1 * 1\<close> grid whose field is \<open>[5]\<close>, a result buffer
  that holds \<open>[1]\<close> ends as \<open>[6]\<close>, which is not the reversal \<open>[5]\<close> of the field.
\<close>

theorem sum_grids_reversal_counterexample:
  "sum_grids \<lparr>dims = [1, 1, 1, 1, 1], type_num = NPY_FLOAT32, data = [[[5]]]\<rparr>
             \<lparr>dims = [1, 1, 1, 1], type_num = NPY_FLOAT32, data = [[1]]\<rparr> 0
     = Some \<lparr>dims = [1, 1, 1, 1], type_num = NPY_FLOAT32, data = [[6]]\<rparr>"
  by code_simp

text \<open>
  C5, amended: with one channel and \<open>roll_steps = 0\<close>, a result buffer that holds zeros
  on entry ends, for each orientation, as the reversal of the single input field along
  all three axes: the entry at \<open>(a, b, c)\<close> is the entry of the field at
  \<open>(nx - 1 - a, ny - 1 - b, nz - 1 - c)\<close>.
\<close>

theorem sum_grids_single_channel_reversal:
  assumes "dims grids = [int n_o, 1, int nx, int ny, int nz]"
    and "int (nx * ny * nz) \<le> INT_MAX"
    and "int nx \<le> INT_MAX \<and> int ny \<le> INT_MAX \<and> int nz \<le> INT_MAX"
    and "length (data grids) = n_o" "\<forall>i<n_o. length (data grids ! i) = 1"
      "\<forall>i<n_o. length (data grids ! i ! 0) = nx * ny * nz"
    and "length (data result) = n_o" "\<forall>i<n_o. length (data result ! i) = nx * ny * nz"
    and "\<forall>i<n_o. \<forall>d<nx * ny * nz. data result ! i ! d = 0"
  shows "\<exists>out. sum_grids grids result 0 = Some out \<and> length (data out) = n_o \<and>
      (\<forall>i<n_o. length (data out ! i) = nx * ny * nz \<and>
         (\<forall>a<nx. \<forall>b<ny. \<forall>c<nz.
            data out ! i ! grid_idx ny nz a b c
              = data grids ! i ! 0 ! grid_idx ny nz (nx - 1 - a) (ny - 1 - b) (nz - 1 - c)))"
proof -
  have dg: "dims grids = [int n_o, int 1, int nx, int ny, int nz]" using assms(1) by simp
  have N: "int (nx * ny * nz) \<le> 2147483647" using assms(2) by (simp add: INT_MAX_def)
  have r: "(0::int) \<le> 0" "0 + int nx \<le> 2147483648" "0 + int ny \<le> 2147483648"
    "0 + int nz \<le> 2147483648"
    using assms(3) by (simp_all add: INT_MAX_def)
  have l2: "\<forall>i<n_o. \<forall>j<1. length (data grids ! i ! j) = nx * ny * nz"
    using assms(6) by simp
  from sum_grids_main [OF dg N r assms(4,5) l2 assms(7,8)]
  obtain out where out: "sum_grids grids result 0 = Some out" "length (data out) = n_o"
    "\<forall>i<n_o. length (data out ! i) = nx * ny * nz \<and>
        (\<forall>p\<in>set (grid_points nx ny nz).
           data out ! i ! rolled_idx nx ny nz (nat 0) p =
           data result ! i ! rolled_idx nx ny nz (nat 0) p
             + (\<Sum>j<1. data grids ! i ! j ! flipped_idx nx ny nz p))"
    by blast
  have "data out ! i ! grid_idx ny nz a b c
      = data grids ! i ! 0 ! grid_idx ny nz (nx - 1 - a) (ny - 1 - b) (nz - 1 - c)"
    if "i < n_o" "a < nx" "b < ny" "c < nz" for i a b c
  proof -
    have p: "(a, b, c) \<in> set (grid_points nx ny nz)" using that by (simp add: set_grid_points)
    have ro: "rolled_idx nx ny nz (nat 0) (a, b, c) = grid_idx ny nz a b c"
      using that by (simp add: rolled_idx_def)
    have z: "data result ! i ! grid_idx ny nz a b c = 0"
      using assms(9) that grid_idx_less [of a nx b ny c nz] by simp
    from out(3) that(1) p have "data out ! i ! rolled_idx nx ny nz (nat 0) (a, b, c) =
           data result ! i ! rolled_idx nx ny nz (nat 0) (a, b, c)
             + (\<Sum>j<1. data grids ! i ! j ! flipped_idx nx ny nz (a, b, c))" by blast
    then show ?thesis unfolding ro z by (simp add: flipped_idx_def)
  qed
  then show ?thesis using out by blast
qed

theorem sum_grids_single_channel_reversal_witness:
  "\<exists>out.
     sum_grids \<lparr>dims = [1, 1, 1, 2, 2], type_num = NPY_FLOAT32, data = [[[1, 2, 3, 4]]]\<rparr>
               \<lparr>dims = [1, 1, 2, 2], type_num = NPY_FLOAT32, data = [[0, 0, 0, 0]]\<rparr> 0
       = Some out \<and>
     data out ! 0 ! 0 = 4 \<and> data out ! 0 ! 1 = 3"
proof -
  let ?G = "\<lparr>dims = [1, 1, 1, 2, 2], type_num = NPY_FLOAT32, data = [[[1, 2, 3, 4::real]]]\<rparr>"
  let ?Z = "\<lparr>dims = [1, 1, 2, 2], type_num = NPY_FLOAT32, data = [[0, 0, 0, 0::real]]\<rparr>"
  have h: "dims ?G = [int 1, 1, int 1, int 2, int 2]"
    "int (1 * 2 * 2) \<le> INT_MAX"
    "int 1 \<le> INT_MAX \<and> int 2 \<le> INT_MAX \<and> int 2 \<le> INT_MAX"
    "length (data ?G) = 1" "\<forall>i<1. length (data ?G ! i) = 1"
    "\<forall>i<1. length (data ?G ! i ! 0) = 1 * 2 * 2"
    "length (data ?Z) = 1" "\<forall>i<1. length (data ?Z ! i) = 1 * 2 * 2"
    "\<forall>i<1. \<forall>d<1 * 2 * 2. data ?Z ! i ! d = 0"
    by (simp_all add: INT_MAX_def less_Suc_eq numeral_2_eq_2)
  from sum_grids_single_channel_reversal [OF h]
  obtain out where o: "sum_grids ?G ?Z 0 = Some out"
    and v: "\<forall>i<1. length (data out ! i) = 1 * 2 * 2 \<and>
         (\<forall>a<1. \<forall>b<2. \<forall>c<2.
            data out ! i ! grid_idx 2 2 a b c
              = data ?G ! i ! 0 ! grid_idx 2 2 (1 - 1 - a) (2 - 1 - b) (2 - 1 - c))"
    by blast
  have l: "(0::nat) < 1" "(0::nat) < 2" "(1::nat) < 2" by simp_all
  note v0 = v [rule_format, OF l(1), THEN conjunct2, rule_format, OF l(1) l(2) l(2)]
  note v1 = v [rule_format, OF l(1), THEN conjunct2, rule_format, OF l(1) l(2) l(3)]
  have "data out ! 0 ! 0 = 4 \<and> data out ! 0 ! 1 = 3"
    using v0 v1 by (simp add: grid_idx_def numeral_3_eq_3)
  with o show ?thesis by blast
qed

text \<open>
  C6, evaluated on the code. \<open>flip_and_roll\<close> reads every channel from
  \<open>PyArray_GETPTR1(grids, i)\<close>, which is channel 0 of the orientation. With one
  orientation, two channels \<open>[1]\<close> and \<open>[2]\<close> on a \<open>1 * 1 * 1\<close> grid and
  \<open>roll_steps = 0\<close>, channel 1 is overwritten with channel 0.
\<close>

theorem flip_and_roll_zero_overwrites_channel:
  "flip_and_roll \<lparr>dims = [1, 2, 1, 1, 1], type_num = NPY_FLOAT32, data = [[[1], [2]]]\<rparr> 0
     = Some \<lparr>dims = [1, 2, 1, 1, 1], type_num = NPY_FLOAT32, data = [[[1], [1]]]\<rparr>"
  by code_simp

text \<open>
  C7, evaluated on the code. \<open>flip_and_roll\<close> rolls in place: it reads entries of the
  buffer it has already overwritten. On the single field \<open>[1, 2, 3]\<close> of a
  \<open>1 * 1 * 3\<close> grid, a roll by 1 gives \<open>[2, 3, 2]\<close>, rolling that by 1 again gives
  \<open>[3, 2, 3]\<close>, and a roll by 2 gives \<open>[3, 3, 3]\<close>.
\<close>

theorem flip_and_roll_twice_differs:
  "flip_and_roll \<lparr>dims = [1, 1, 1, 1, 3], type_num = NPY_FLOAT32, data = [[[1, 2, 3]]]\<rparr> 1
     = Some \<lparr>dims = [1, 1, 1, 1, 3], type_num = NPY_FLOAT32, data = [[[2, 3, 2]]]\<rparr> \<and>
   flip_and_roll \<lparr>dims = [1, 1, 1, 1, 3], type_num = NPY_FLOAT32, data = [[[2, 3, 2]]]\<rparr> 1
     = Some \<lparr>dims = [1, 1, 1, 1, 3], type_num = NPY_FLOAT32, data = [[[3, 2, 3]]]\<rparr> \<and>
   flip_and_roll \<lparr>dims = [1, 1, 1, 1, 3], type_num = NPY_FLOAT32, data = [[[1, 2, 3]]]\<rparr> 2
     = Some \<lparr>dims = [1, 1, 1, 1, 3], type_num = NPY_FLOAT32, data = [[[3, 3, 3]]]\<rparr>"
  by code_simp

text \<open>
  C8 as stated fails when the stream is shorter than the capacity: the heap is sorted
  only once it is full. With the two scores \<open>[1, 2]\<close> and capacity 3 the output is the
  entries in stream order, the lower score first, followed by an entry that was never
  written.
\<close>

theorem get_top_n_scores_short_counterexample:
  "get_top_n_scores stable_qsort [1, 2] 2 3 =
     Some [Some \<lparr>index = 0, score = 1\<rparr>, Some \<lparr>index = 1, score = 2\<rparr>, None]"
  by code_simp

text \<open>
  C8, amended: for a capacity \<open>N\<close> of at least 1, a stream of at least \<open>N\<close> scores
  and any \<open>qsort\<close> that sorts, the output holds \<open>N\<close> entries in descending order of
  score, so no entry has a higher score than the first one.
\<close>

theorem get_top_n_scores_descending:
  assumes "qsort_sorts qsort" "1 \<le> N" "N \<le> n" "n \<le> length scores"
  shows "\<exists>ps. get_top_n_scores qsort scores (int n) (int N) = Some (map Some ps) \<and>
           length ps = N \<and>
           sorted_wrt (\<lambda>a b. score b \<le> score a) ps \<and>
           (\<forall>p\<in>set ps. score p \<le> score (hd ps))"
proof -
  from heap_loop [OF assms(2-4) assms(1)]
  obtain ps where ps: "for_loop n (get_top_n_scores_step qsort scores (int N)) (replicate N None)
               = Some (map Some ps)" "heap_inv scores N n ps"
    by blast
  note inv = heap_invD [OF ps(2)]
  obtain p0 rest where c: "ps = p0 # rest" using inv(1) assms(2) by (cases ps) simp_all
  have "\<forall>p\<in>set ps. score p \<le> score (hd ps)"
    using inv(2) unfolding c by auto
  then show ?thesis using ps(1) inv(1,2) by (auto simp: get_top_n_scores_def)
qed

theorem get_top_n_scores_descending_witness:
  "qsort_sorts stable_qsort \<and>
   get_top_n_scores stable_qsort [4, 1, 3, 1, 2, 0] 6 3 =
     Some [Some \<lparr>index = 3, score = 1\<rparr>, Some \<lparr>index = 1, score = 1\<rparr>,
           Some \<lparr>index = 5, score = 0\<rparr>] \<and>
   (\<exists>ps. get_top_n_scores stable_qsort [4, 1, 3, 1, 2, 0] 6 3 = Some (map Some ps) \<and>
         length ps = 3 \<and> sorted_wrt (\<lambda>a b. score b \<le> score a) ps \<and>
         (\<forall>p\<in>set ps. score p \<le> score (hd ps)))"
proof -
  have h: "(1::nat) \<le> 3" "(3::nat) \<le> 6" "6 \<le> length [4, 1, 3, 1, 2, 0::real]" by simp_all
  have e: "get_top_n_scores stable_qsort [4, 1, 3, 1, 2, 0] 6 3 =
     Some [Some \<lparr>index = 3, score = 1\<rparr>, Some \<lparr>index = 1, score = 1\<rparr>,
           Some \<lparr>index = 5, score = 0\<rparr>]"
    by code_simp
  show ?thesis
    using get_top_n_scores_descending [OF stable_qsort_sorts h] stable_qsort_sorts e by simp
qed




text \<open>
  C10 as stated fails: \<open>roll_steps \<ge> 0\<close> does not keep \<open>new_z + roll_steps\<close> inside
  the range of \<open>int\<close>. With \<open>roll_steps = 2147483647\<close> on a \<open>1 * 1 * 3\<close> grid, the
  counter \<open>new_z = 1\<close> gives \<open>1 + 2147483647\<close>, which wraps to \<open>-2147483648\<close>, and
  \<open>-2147483648 % 3 = -2\<close>: the destination index is negative and the guarded write fails.
\<close>

theorem roll_index_overflow_counterexample:
  "(0::int) \<le> 2147483647 \<and>
   roll_cur_idx 1 1 3 0 0 1 2147483647 = - 2 \<and>
   sum_grids \<lparr>dims = [1, 1, 1, 1, 3], type_num = NPY_FLOAT32, data = [[[1, 2, 3]]]\<rparr>
             \<lparr>dims = [1, 1, 1, 3], type_num = NPY_FLOAT32, data = [[0, 0, 0]]\<rparr> 2147483647
     = None"
  by code_simp

text \<open>
  C10, amended: when \<open>roll_steps\<close> is not negative, no coordinate plus \<open>roll_steps\<close>
  exceeds \<open>INT_MAX\<close> and the grid has at most \<open>INT_MAX\<close> points, every rolled index
  and every reversed source index lies in \<open>[0, nx * ny * nz)\<close>, and neither
  \<open>sum_grids\<close> nor \<open>flip_and_roll\<close> fails on arrays of matching shape. A negative
  \<open>roll_steps\<close> gives a negative index at some coordinate of every grid that has an
  axis longer than 1.
\<close>

theorem roll_indices_in_range:
  assumes "dims grids = [int n_o, int n_g, int nx, int ny, int nz]"
    and "int (nx * ny * nz) \<le> INT_MAX"
    and "0 \<le> roll_steps" "roll_steps + int nx \<le> INT_MAX + 1"
      "roll_steps + int ny \<le> INT_MAX + 1" "roll_steps + int nz \<le> INT_MAX + 1"
    and "length (data grids) = n_o" "\<forall>i<n_o. length (data grids ! i) = n_g"
      "\<forall>i<n_o. \<forall>j<n_g. length (data grids ! i ! j) = nx * ny * nz"
    and "length (data result) = n_o" "\<forall>i<n_o. length (data result ! i) = nx * ny * nz"
  shows "(\<forall>a<nx. \<forall>b<ny. \<forall>c<nz.
            0 \<le> roll_cur_idx (int nx) (int ny) (int nz) (int a) (int b) (int c) roll_steps \<and>
            roll_cur_idx (int nx) (int ny) (int nz) (int a) (int b) (int c) roll_steps
              < int (nx * ny * nz) \<and>
            grid_idx ny nz (nx - 1 - a) (ny - 1 - b) (nz - 1 - c) < nx * ny * nz) \<and>
         sum_grids grids result roll_steps \<noteq> None \<and>
         flip_and_roll grids roll_steps \<noteq> None \<and>
         (\<forall>r. r < 0 \<longrightarrow> - INT_MAX - 1 \<le> r \<longrightarrow> (2 \<le> nx \<or> 2 \<le> ny \<or> 2 \<le> nz) \<longrightarrow>
            0 < nx \<longrightarrow> 0 < ny \<longrightarrow> 0 < nz \<longrightarrow>
            (\<exists>a<nx. \<exists>b<ny. \<exists>c<nz.
               roll_cur_idx (int nx) (int ny) (int nz) (int a) (int b) (int c) r < 0))"
proof -
  note N = assms(2) [unfolded INT_MAX_def]
  note r = assms(3) assms(4-6) [unfolded INT_MAX_def, simplified]
  have 1: "0 \<le> roll_cur_idx (int nx) (int ny) (int nz) (int a) (int b) (int c) roll_steps \<and>
            roll_cur_idx (int nx) (int ny) (int nz) (int a) (int b) (int c) roll_steps
              < int (nx * ny * nz) \<and>
            grid_idx ny nz (nx - 1 - a) (ny - 1 - b) (nz - 1 - c) < nx * ny * nz"
    if "a < nx" "b < ny" "c < nz" for a b c
  proof -
    have "nx - 1 - a < nx" "ny - 1 - b < ny" "nz - 1 - c < nz" using that by simp_all
    then have "grid_idx ny nz (nx - 1 - a) (ny - 1 - b) (nz - 1 - c) < nx * ny * nz"
      by (rule grid_idx_less)
    then show ?thesis using roll_cur_idx_range [OF that N r] by simp
  qed
  have 2: "sum_grids grids result roll_steps \<noteq> None"
    using sum_grids_main [OF assms(1) N r assms(7-11)] by auto
  have 3: "flip_and_roll grids roll_steps \<noteq> None"
    using flip_and_roll_Some [OF assms(1) N r assms(7-9)] by auto
  have 4: "\<exists>a<nx. \<exists>b<ny. \<exists>c<nz.
       roll_cur_idx (int nx) (int ny) (int nz) (int a) (int b) (int c) r < 0"
    if "r < 0" "- INT_MAX - 1 \<le> r" "2 \<le> nx \<or> 2 \<le> ny \<or> 2 \<le> nz" "0 < nx" "0 < ny" "0 < nz" for r
    by (rule roll_cur_idx_negative_roll [OF that(4-6) that(3) N that(1)])
      (use that(2) in \<open>simp add: INT_MAX_def\<close>)
  show ?thesis using 1 2 3 4 by blast
qed

theorem roll_indices_in_range_witness:
  "0 \<le> roll_cur_idx 1 1 3 0 0 2 1 \<and> roll_cur_idx 1 1 3 0 0 2 1 < 3 \<and>
   sum_grids \<lparr>dims = [1, 1, 1, 1, 3], type_num = NPY_FLOAT32, data = [[[1, 2, 3]]]\<rparr>
             \<lparr>dims = [1, 1, 1, 3], type_num = NPY_FLOAT32, data = [[0, 0, 0]]\<rparr> 1 \<noteq> None \<and>
   flip_and_roll \<lparr>dims = [1, 1, 1, 1, 3], type_num = NPY_FLOAT32, data = [[[1, 2, 3]]]\<rparr> 1
     \<noteq> None \<and>
   (\<exists>a<1. \<exists>b<1. \<exists>c<3. roll_cur_idx 1 1 3 (int a) (int b) (int c) (- 1) < 0)"
proof -
  let ?G = "\<lparr>dims = [1, 1, 1, 1, 3], type_num = NPY_FLOAT32, data = [[[1, 2, 3::real]]]\<rparr>"
  let ?R = "\<lparr>dims = [1, 1, 1, 3], type_num = NPY_FLOAT32, data = [[0, 0, 0::real]]\<rparr>"
  have h: "dims ?G = [int 1, int 1, int 1, int 1, int 3]"
    "int (1 * 1 * 3) \<le> INT_MAX" "(0::int) \<le> 1" "1 + int 1 \<le> INT_MAX + 1"
    "1 + int 1 \<le> INT_MAX + 1" "1 + int 3 \<le> INT_MAX + 1"
    "length (data ?G) = 1" "\<forall>i<1. length (data ?G ! i) = 1"
    "\<forall>i<1. \<forall>j<1. length (data ?G ! i ! j) = 1 * 1 * 3"
    "length (data ?R) = 1" "\<forall>i<1. length (data ?R ! i) = 1 * 1 * 3"
    by (simp_all add: INT_MAX_def)
  note t = roll_indices_in_range [OF h]
  have l: "(0::nat) < 1" "(2::nat) < 3" by simp_all
  note t1 = t [THEN conjunct1, rule_format, OF l(1) l(1) l(2)]
  note t2 = t [THEN conjunct2, THEN conjunct1]
  note t3 = t [THEN conjunct2, THEN conjunct2, THEN conjunct1]
  have n: "(- 1::int) < 0" "- INT_MAX - 1 \<le> - 1" "2 \<le> (1::nat) \<or> 2 \<le> (1::nat) \<or> 2 \<le> (3::nat)"
    "(0::nat) < 1" "(0::nat) < 3"
    by (simp_all add: INT_MAX_def)
  note t4 = t [THEN conjunct2, THEN conjunct2, THEN conjunct2, rule_format,
      OF n(1) n(2) n(3) n(4) n(4) n(5)]
  show ?thesis using t1 t2 t3 t4 by simp
qed

end
